theory Spec2Isabelle
  imports Complex_Main "HOL-Library.AList" "HOL-Library.Multiset"
begin

section \<open>Values of the host language\<close>

text \<open>
  A JavaScript number is modelled as a rational or one of the three special values; negative
  zero is identified with zero (the program never distinguishes them). A bigint is an
  unbounded integer.
\<close>

datatype jsnum = Fin rat | NaN | PosInf | NegInf

datatype jsval =
    VUndefined
  | VBool bool
  | VNumber jsnum
  | VBigInt int
  | VString string
  | VObject
  | VFunction
  | VSymbol

datatype arrayClass =
    Float16Array | Float32Array | Float64Array
  | Int8Array | Int16Array | Int32Array
  | Uint8Array | Uint16Array | Uint32Array
  | Uint8ClampedArray | BigInt64Array | BigUint64Array

datatype error =
    RangeError
  | TypeError
  | UnsupportedFieldTypeError
  | Error
  | Diverges

text \<open>
  The builtins of the runtime that the program calls but does not define: the collation used by
  \<^verbatim>\<open>localeCompare\<close>, the two number parsers (\<^verbatim>\<open>parseInt\<close> always with
  radix 10), the rounding of a number to the two narrow floating point formats, and whether the
  constructor of a typed array class finds a buffer for a length (it throws a RangeError when it
  does not).
\<close>

record js_runtime =
  localeCompare :: "string \<Rightarrow> string \<Rightarrow> int"
  parseFloat :: "string \<Rightarrow> jsnum"
  parseInt :: "string \<Rightarrow> jsnum"
  toFloat16 :: "jsnum \<Rightarrow> jsnum"
  toFloat32 :: "jsnum \<Rightarrow> jsnum"
  allocates :: "arrayClass \<Rightarrow> nat \<Rightarrow> bool"

section \<open>types.ts\<close>

datatype FieldType =
  F16 | F32 | F64 | I8 | I16 | I32 | U8 | U16 | U32 | U8C | BI64 | BIU64 | BOOL

record TypedArray =
  cls :: arrayClass
  elems :: "jsval list"

type_synonym ComponentSchema = "(string \<times> FieldType) list"

text \<open>A component instance: its own properties, in order. A missing property reads as undefined.\<close>

type_synonym component = "(string \<times> jsval) list"

definition getProp :: "component \<Rightarrow> string \<Rightarrow> jsval" where
  "getProp v k = (case map_of v k of None \<Rightarrow> VUndefined | Some x \<Rightarrow> x)"

record ComponentConstructor =
  typeId :: string
  schemaOf :: ComponentSchema
  newInstance :: component

section \<open>Typed arrays\<close>

definition isBigClass :: "arrayClass \<Rightarrow> bool" where
  "isBigClass c = (c = BigInt64Array \<or> c = BigUint64Array)"

definition truncq :: "rat \<Rightarrow> int" where
  "truncq q = (if q < 0 then - \<lfloor>- q\<rfloor> else \<lfloor>q\<rfloor>)"

definition toIntegral :: "jsnum \<Rightarrow> int" where
  "toIntegral x = (case x of Fin q \<Rightarrow> truncq q | _ \<Rightarrow> 0)"

definition wrapU :: "nat \<Rightarrow> int \<Rightarrow> int" where
  "wrapU w n = n mod 2 ^ w"

definition wrapS :: "nat \<Rightarrow> int \<Rightarrow> int" where
  "wrapS w n = (n + 2 ^ (w - 1)) mod 2 ^ w - 2 ^ (w - 1)"

definition roundHalfEven :: "rat \<Rightarrow> int" where
  "roundHalfEven q =
     (let f = \<lfloor>q\<rfloor> in
      if q - of_int f < 1 / 2 then f
      else if 1 / 2 < q - of_int f then f + 1
      else if even f then f else f + 1)"

definition toUint8Clamp :: "jsnum \<Rightarrow> int" where
  "toUint8Clamp x =
     (case x of
        NaN \<Rightarrow> 0
      | PosInf \<Rightarrow> 255
      | NegInf \<Rightarrow> 0
      | Fin q \<Rightarrow> if q \<le> 0 then 0 else if 255 \<le> q then 255 else roundHalfEven q)"

text \<open>What a number becomes when it is written into an element of a number array.\<close>

fun toElement :: "js_runtime \<Rightarrow> arrayClass \<Rightarrow> jsnum \<Rightarrow> jsnum" where
  "toElement rt Float16Array x = toFloat16 rt x"
| "toElement rt Float32Array x = toFloat32 rt x"
| "toElement rt Float64Array x = x"
| "toElement rt Int8Array x = Fin (of_int (wrapS 8 (toIntegral x)))"
| "toElement rt Int16Array x = Fin (of_int (wrapS 16 (toIntegral x)))"
| "toElement rt Int32Array x = Fin (of_int (wrapS 32 (toIntegral x)))"
| "toElement rt Uint8Array x = Fin (of_int (wrapU 8 (toIntegral x)))"
| "toElement rt Uint16Array x = Fin (of_int (wrapU 16 (toIntegral x)))"
| "toElement rt Uint32Array x = Fin (of_int (wrapU 32 (toIntegral x)))"
| "toElement rt Uint8ClampedArray x = Fin (of_int (toUint8Clamp x))"
| "toElement rt BigInt64Array x = x"
| "toElement rt BigUint64Array x = x"

text \<open>
  The conversion of a value assigned to an element. A bigint array accepts only a bigint and a
  number array only a number (of the values the store writes); the other combination is a
  TypeError of the runtime.
\<close>

definition convertElement :: "js_runtime \<Rightarrow> arrayClass \<Rightarrow> jsval \<Rightarrow> error + jsval" where
  "convertElement rt c v =
     (if isBigClass c then
        (case v of
           VBigInt n \<Rightarrow> Inr (VBigInt (if c = BigInt64Array then wrapS 64 n else wrapU 64 n))
         | VBool b \<Rightarrow> Inr (VBigInt (if b then 1 else 0))
         | _ \<Rightarrow> Inl TypeError)
      else
        (case v of
           VNumber x \<Rightarrow> Inr (VNumber (toElement rt c x))
         | VUndefined \<Rightarrow> Inr (VNumber (toElement rt c NaN))
         | VBool b \<Rightarrow> Inr (VNumber (toElement rt c (Fin (if b then 1 else 0))))
         | _ \<Rightarrow> Inl TypeError))"

text \<open>\<^verbatim>\<open>arr[i]\<close>: undefined outside the array.\<close>

definition taGet :: "TypedArray \<Rightarrow> int \<Rightarrow> jsval" where
  "taGet arr i = (if 0 \<le> i \<and> i < int (length (elems arr)) then elems arr ! nat i else VUndefined)"

text \<open>\<^verbatim>\<open>arr[i] = v\<close>: the value is converted first; a write outside the array is dropped.\<close>

definition taSet :: "js_runtime \<Rightarrow> TypedArray \<Rightarrow> int \<Rightarrow> jsval \<Rightarrow> error + TypedArray" where
  "taSet rt arr i v =
     (case convertElement rt (cls arr) v of
        Inl e \<Rightarrow> Inl e
      | Inr c \<Rightarrow>
          Inr (if 0 \<le> i \<and> i < int (length (elems arr))
               then arr\<lparr>elems := (elems arr)[nat i := c]\<rparr> else arr))"

section \<open>columnStore.ts\<close>

definition INITIAL_CAPACITY :: nat where
  "INITIAL_CAPACITY = 8"

record ColumnStore =
  schema :: ComponentSchema
  typedArrayMap :: "(string \<times> TypedArray) list"
  capacity :: nat
  size_cs :: nat

text \<open>A failing method of a store returns the error together with the store as the throw left it.\<close>

type_synonym 'a thrown = "(error \<times> 'a) + 'a"

definition classOf :: "FieldType \<Rightarrow> arrayClass" where
  "classOf t =
     (case t of
        F16 \<Rightarrow> Float16Array | F32 \<Rightarrow> Float32Array | F64 \<Rightarrow> Float64Array
      | I8 \<Rightarrow> Int8Array | I16 \<Rightarrow> Int16Array | I32 \<Rightarrow> Int32Array
      | U8 \<Rightarrow> Uint8Array | BOOL \<Rightarrow> Uint8Array
      | U16 \<Rightarrow> Uint16Array | U32 \<Rightarrow> Uint32Array
      | U8C \<Rightarrow> Uint8ClampedArray
      | BI64 \<Rightarrow> BigInt64Array | BIU64 \<Rightarrow> BigUint64Array)"

definition zeroOf :: "arrayClass \<Rightarrow> jsval" where
  "zeroOf c = (if isBigClass c then VBigInt 0 else VNumber (Fin 0))"

text \<open>
  \<^verbatim>\<open>new Float32Array(length)\<close> and the like: a zero-filled array, or the RangeError of
  a buffer that cannot be allocated.
\<close>

definition zeroArray :: "arrayClass \<Rightarrow> nat \<Rightarrow> TypedArray" where
  "zeroArray c len = \<lparr>cls = c, elems = replicate len (zeroOf c)\<rparr>"

definition newTypedArray :: "js_runtime \<Rightarrow> arrayClass \<Rightarrow> nat \<Rightarrow> error + TypedArray" where
  "newTypedArray rt c len = (if allocates rt c len then Inr (zeroArray c len) else Inl RangeError)"

definition createArrayForType :: "js_runtime \<Rightarrow> FieldType \<Rightarrow> nat \<Rightarrow> error + TypedArray" where
  "createArrayForType rt t len = newTypedArray rt (classOf t) len"

text \<open>The constructor: one array per key of the schema; a throw leaves no store.\<close>

fun createArrays ::
  "js_runtime \<Rightarrow> nat \<Rightarrow> ComponentSchema \<Rightarrow> (string \<times> TypedArray) list \<Rightarrow>
   error + (string \<times> TypedArray) list" where
  "createArrays rt cap [] m = Inr m"
| "createArrays rt cap ((key, t) # rest) m =
     (case createArrayForType rt t cap of
        Inl e \<Rightarrow> Inl e
      | Inr arr \<Rightarrow> createArrays rt cap rest (AList.update key arr m))"

definition newColumnStore :: "js_runtime \<Rightarrow> ComponentSchema \<Rightarrow> nat \<Rightarrow> error + ColumnStore" where
  "newColumnStore rt sch initialCapacity =
     (let cap = max initialCapacity 1 in
      case createArrays rt cap sch [] of
        Inl e \<Rightarrow> Inl e
      | Inr m \<Rightarrow> Inr \<lparr>schema = sch, typedArrayMap = m, capacity = cap, size_cs = 0\<rparr>)"

partial_function (option) growLoop :: "nat \<Rightarrow> nat \<Rightarrow> nat option" where
  "growLoop newCap minCapacity =
     (if newCap < minCapacity then growLoop (newCap * 2) minCapacity else Some newCap)"

declare growLoop.simps [code]

text \<open>
  \<^verbatim>\<open>newArr.set(oldArr, 0)\<close> between arrays of one class copies the elements as they are;
  between two number classes each element is converted.
\<close>

definition copyInto :: "js_runtime \<Rightarrow> TypedArray \<Rightarrow> TypedArray \<Rightarrow> TypedArray" where
  "copyInto rt newArr oldArr =
     (let src = (if cls newArr = cls oldArr then elems oldArr
                 else map (\<lambda>v. case v of VNumber x \<Rightarrow> VNumber (toElement rt (cls newArr) x)
                                  | VBigInt n \<Rightarrow> VBigInt (if cls newArr = BigInt64Array
                                                            then wrapS 64 n else wrapU 64 n)
                                  | w \<Rightarrow> w) (elems oldArr))
      in newArr\<lparr>elems := src @ drop (length src) (elems newArr)\<rparr>)"

fun growArrays ::
  "js_runtime \<Rightarrow> nat \<Rightarrow> (string \<times> TypedArray) list \<Rightarrow> ColumnStore \<Rightarrow> ColumnStore thrown" where
  "growArrays rt newCap [] s = Inr s"
| "growArrays rt newCap ((key, oldArr) # rest) s =
     (case map_of (schema s) key of
        None \<Rightarrow> Inl (UnsupportedFieldTypeError, s)
      | Some ft \<Rightarrow>
          (case createArrayForType rt ft newCap of
             Inl e \<Rightarrow> Inl (e, s)
           | Inr newArr \<Rightarrow>
               if isBigClass (cls newArr) = isBigClass (cls oldArr) then
                 growArrays rt newCap rest
                   (s\<lparr>typedArrayMap := AList.update key (copyInto rt newArr oldArr) (typedArrayMap s)\<rparr>)
               else Inl (UnsupportedFieldTypeError, s)))"

definition ensureCapacity :: "js_runtime \<Rightarrow> ColumnStore \<Rightarrow> nat \<Rightarrow> ColumnStore thrown" where
  "ensureCapacity rt s minCapacity =
     (if minCapacity \<le> capacity s then Inr s
      else
        (case growLoop (capacity s) minCapacity of
           None \<Rightarrow> Inl (Diverges, s)
         | Some newCap \<Rightarrow>
             (case growArrays rt newCap (typedArrayMap s) s of
                Inl x \<Rightarrow> Inl x
              | Inr s' \<Rightarrow> Inr (s'\<lparr>capacity := newCap\<rparr>))))"

text \<open>The coercion of \<^verbatim>\<open>set\<close>: the switch on \<^verbatim>\<open>typeof raw\<close>.\<close>

definition coerce :: "js_runtime \<Rightarrow> jsval \<Rightarrow> error + jsval" where
  "coerce rt raw =
     (case raw of
        VBigInt n \<Rightarrow> Inr raw
      | VString str \<Rightarrow>
          (if CHR ''.'' \<in> set str \<or> CHR ''e'' \<in> set str \<or> CHR ''E'' \<in> set str
           then Inr (VNumber (parseFloat rt str))
           else Inr (VNumber (parseInt rt str)))
      | VNumber x \<Rightarrow> Inr raw
      | VBool b \<Rightarrow> Inr (VNumber (Fin (if b then 1 else 0)))
      | VUndefined \<Rightarrow> Inr (VNumber (Fin 0))
      | VFunction \<Rightarrow> Inl UnsupportedFieldTypeError
      | VObject \<Rightarrow> Inl UnsupportedFieldTypeError
      | VSymbol \<Rightarrow> Inl UnsupportedFieldTypeError)"

text \<open>
  The loop the mutating methods share: for every key of the schema, fetch the array of the
  field (its absence is an Error) and run the body on it; the first throw ends the loop.
\<close>

fun forEachField ::
  "(string \<Rightarrow> TypedArray \<Rightarrow> error + TypedArray) \<Rightarrow> string list \<Rightarrow> ColumnStore \<Rightarrow>
   ColumnStore thrown" where
  "forEachField body [] s = Inr s"
| "forEachField body (key # keys) s =
     (case map_of (typedArrayMap s) key of
        None \<Rightarrow> Inl (Error, s)
      | Some arr \<Rightarrow>
          (case body key arr of
             Inl e \<Rightarrow> Inl (e, s)
           | Inr arr' \<Rightarrow>
               forEachField body keys
                 (s\<lparr>typedArrayMap := AList.update key arr' (typedArrayMap s)\<rparr>)))"

definition setField ::
  "js_runtime \<Rightarrow> int \<Rightarrow> component \<Rightarrow> string \<Rightarrow> TypedArray \<Rightarrow> error + TypedArray" where
  "setField rt index v key arr =
     (case coerce rt (getProp v key) of
        Inl e \<Rightarrow> Inl e
      | Inr raw \<Rightarrow> taSet rt arr index raw)"

definition set_cs :: "js_runtime \<Rightarrow> ColumnStore \<Rightarrow> int \<Rightarrow> component \<Rightarrow> ColumnStore thrown" where
  "set_cs rt s index v =
     (if index < 0 then Inl (RangeError, s)
      else
        (case (if int (capacity s) \<le> index then ensureCapacity rt s (nat (index + 1)) else Inr s) of
           Inl x \<Rightarrow> Inl x
         | Inr s1 \<Rightarrow>
             (case forEachField (setField rt index v) (map fst (schema s1)) s1 of
                Inl x \<Rightarrow> Inl x
              | Inr s2 \<Rightarrow>
                  Inr (if int (size_cs s2) \<le> index then s2\<lparr>size_cs := nat (index + 1)\<rparr> else s2))))"

text \<open>The decoding of \<^verbatim>\<open>get\<close>: the switch on the field type; \<^verbatim>\<open>BigInt(raw)\<close> can throw.\<close>

definition toBigInt :: "jsval \<Rightarrow> error + jsval" where
  "toBigInt raw =
     (case raw of
        VBigInt n \<Rightarrow> Inr (VBigInt n)
      | VNumber (Fin q) \<Rightarrow> if of_int \<lfloor>q\<rfloor> = q then Inr (VBigInt \<lfloor>q\<rfloor>) else Inl RangeError
      | VNumber _ \<Rightarrow> Inl RangeError
      | VBool b \<Rightarrow> Inr (VBigInt (if b then 1 else 0))
      | _ \<Rightarrow> Inl TypeError)"

definition decode :: "FieldType \<Rightarrow> jsval \<Rightarrow> error + jsval" where
  "decode ft raw =
     (case ft of
        BOOL \<Rightarrow> Inr (VBool (raw \<noteq> VNumber (Fin 0)))
      | BI64 \<Rightarrow> toBigInt raw
      | BIU64 \<Rightarrow> toBigInt raw
      | _ \<Rightarrow> Inr raw)"

text \<open>\<^verbatim>\<open>const raw = index < this.size ? arr[index] : 0\<close>\<close>

definition readRow :: "ColumnStore \<Rightarrow> TypedArray \<Rightarrow> int \<Rightarrow> jsval" where
  "readRow s arr index = (if index < int (size_cs s) then taGet arr index else VNumber (Fin 0))"

fun getFields :: "ColumnStore \<Rightarrow> int \<Rightarrow> string list \<Rightarrow> error + component" where
  "getFields s index [] = Inr []"
| "getFields s index (key # keys) =
     (case map_of (typedArrayMap s) key of
        None \<Rightarrow> Inl Error
      | Some arr \<Rightarrow>
          (case map_of (schema s) key of
             None \<Rightarrow> Inl UnsupportedFieldTypeError
           | Some ft \<Rightarrow>
               (case decode ft (readRow s arr index) of
                  Inl e \<Rightarrow> Inl e
                | Inr x \<Rightarrow>
                    (case getFields s index keys of
                       Inl e \<Rightarrow> Inl e
                     | Inr out \<Rightarrow> Inr ((key, x) # out)))))"

definition get_cs :: "ColumnStore \<Rightarrow> int \<Rightarrow> error + component" where
  "get_cs s index = getFields s index (map fst (schema s))"

definition swapField :: "js_runtime \<Rightarrow> int \<Rightarrow> int \<Rightarrow> string \<Rightarrow> TypedArray \<Rightarrow> error + TypedArray" where
  "swapField rt index lastRow key arr = taSet rt arr index (taGet arr lastRow)"

definition swapRemove :: "js_runtime \<Rightarrow> ColumnStore \<Rightarrow> int \<Rightarrow> ColumnStore thrown" where
  "swapRemove rt s index =
     (let lastRow = int (size_cs s) - 1 in
      if index < 0 \<or> int (size_cs s) \<le> index then Inl (Error, s)
      else if index = lastRow then Inr (s\<lparr>size_cs := size_cs s - 1\<rparr>)
      else
        (case forEachField (swapField rt index lastRow) (map fst (schema s)) s of
           Inl x \<Rightarrow> Inl x
         | Inr s' \<Rightarrow> Inr (s'\<lparr>size_cs := size_cs s' - 1\<rparr>)))"

text \<open>\<^verbatim>\<open>copyFrom\<close>, for a source store that is another object than the destination.\<close>

definition copyField ::
  "js_runtime \<Rightarrow> int \<Rightarrow> ColumnStore \<Rightarrow> int \<Rightarrow> string \<Rightarrow> TypedArray \<Rightarrow> error + TypedArray" where
  "copyField rt indexTarget other indexSrc key dst =
     (case map_of (typedArrayMap other) key of
        None \<Rightarrow> Inl Error
      | Some src \<Rightarrow> taSet rt dst indexTarget (taGet src indexSrc))"

definition copyFrom ::
  "js_runtime \<Rightarrow> ColumnStore \<Rightarrow> int \<Rightarrow> ColumnStore \<Rightarrow> int \<Rightarrow> ColumnStore thrown" where
  "copyFrom rt s indexTarget other indexSrc =
     (case (if int (capacity s) \<le> indexTarget
            then ensureCapacity rt s (nat (indexTarget + 1)) else Inr s) of
        Inl x \<Rightarrow> Inl x
      | Inr s1 \<Rightarrow>
          if indexSrc < 0 \<or> int (size_cs other) \<le> indexSrc then Inl (RangeError, s1)
          else
            (case forEachField (copyField rt indexTarget other indexSrc) (map fst (schema s1)) s1 of
               Inl x \<Rightarrow> Inl x
             | Inr s2 \<Rightarrow>
                 Inr (if int (size_cs s2) \<le> indexTarget
                      then s2\<lparr>size_cs := nat (indexTarget + 1)\<rparr> else s2)))"

section \<open>Well-formed stores\<close>

text \<open>
  The rounding to the narrow floating point formats is a projection that keeps zero; nothing
  else is assumed of the runtime.
\<close>

definition rt_ok :: "js_runtime \<Rightarrow> bool" where
  "rt_ok rt \<longleftrightarrow>
     (\<forall>x. toFloat16 rt (toFloat16 rt x) = toFloat16 rt x) \<and>
     (\<forall>x. toFloat32 rt (toFloat32 rt x) = toFloat32 rt x) \<and>
     toFloat16 rt (Fin 0) = Fin 0 \<and> toFloat32 rt (Fin 0) = Fin 0"

text \<open>
  The runtime allocates an array of a length for every field of a schema; a store can take a row
  at an index without growing, or the runtime allocates the grown arrays.
\<close>

definition allocatesFor :: "js_runtime \<Rightarrow> ComponentSchema \<Rightarrow> nat \<Rightarrow> bool" where
  "allocatesFor rt sch len \<longleftrightarrow> list_all (\<lambda>(key, ft). allocates rt (classOf ft) len) sch"

definition grows :: "js_runtime \<Rightarrow> ColumnStore \<Rightarrow> nat \<Rightarrow> bool" where
  "grows rt s index \<longleftrightarrow>
     index < capacity s \<or>
     (case growLoop (capacity s) (index + 1) of
        None \<Rightarrow> False
      | Some newCap \<Rightarrow> allocatesFor rt (schema s) newCap)"

text \<open>An element that its array can hold: writing it back leaves it as it is.\<close>

definition validElem :: "js_runtime \<Rightarrow> arrayClass \<Rightarrow> jsval \<Rightarrow> bool" where
  "validElem rt c v \<longleftrightarrow> convertElement rt c v = Inr v"

definition arrayFor :: "js_runtime \<Rightarrow> nat \<Rightarrow> FieldType \<Rightarrow> TypedArray \<Rightarrow> bool" where
  "arrayFor rt cap ft arr \<longleftrightarrow>
     cls arr = classOf ft \<and> length (elems arr) = cap \<and> list_all (validElem rt (cls arr)) (elems arr)"

text \<open>
  What the constructor establishes and every method keeps: one array per schema field, of the
  field's class and of length \<^verbatim>\<open>capacity\<close>, holding elements of its class;
  \<^verbatim>\<open>size\<close> within \<^verbatim>\<open>capacity\<close>, which is at least 1.
\<close>

definition store_inv :: "js_runtime \<Rightarrow> ColumnStore \<Rightarrow> bool" where
  "store_inv rt s \<longleftrightarrow>
     distinct (map fst (schema s)) \<and>
     map fst (typedArrayMap s) = map fst (schema s) \<and>
     (\<forall>key ft. map_of (schema s) key = Some ft \<longrightarrow>
        (\<exists>arr. map_of (typedArrayMap s) key = Some arr \<and> arrayFor rt (capacity s) ft arr)) \<and>
     size_cs s \<le> capacity s \<and> 1 \<le> capacity s"

section \<open>archetype.ts\<close>

definition DEFAULT_CAPACITY :: nat where
  "DEFAULT_CAPACITY = 8"

type_synonym entity = int

record Archetype =
  typeIds :: "string list"
  ctors :: "ComponentConstructor list"
  entityIds :: "entity list"
  indexByEntity :: "entity \<rightharpoonup> nat"
  stores :: "(string \<times> ColumnStore) list"

text \<open>
  \<^verbatim>\<open>ctors.slice().sort((a, b) => a.typeId.localeCompare(b.typeId))\<close>: the sort is stable,
  so for a consistent comparator its result is the one of this insertion sort, which puts an
  element behind the elements that do not compare greater.
\<close>

fun insertCtor :: "js_runtime \<Rightarrow> ComponentConstructor \<Rightarrow> ComponentConstructor list \<Rightarrow> ComponentConstructor list" where
  "insertCtor rt c [] = [c]"
| "insertCtor rt c (d # ds) =
     (if localeCompare rt (typeId c) (typeId d) < 0 then c # d # ds else d # insertCtor rt c ds)"

definition sortCtors :: "js_runtime \<Rightarrow> ComponentConstructor list \<Rightarrow> ComponentConstructor list" where
  "sortCtors rt cs = foldl (\<lambda>acc c. insertCtor rt c acc) [] cs"

text \<open>\<^verbatim>\<open>join("|")\<close>\<close>

fun joinBar :: "string list \<Rightarrow> string" where
  "joinBar [] = []"
| "joinBar [x] = x"
| "joinBar (x # y # ys) = x @ ''|'' @ joinBar (y # ys)"

text \<open>The constructor: one store per sorted component type; a throw leaves no archetype.\<close>

fun createStores ::
  "js_runtime \<Rightarrow> ComponentConstructor list \<Rightarrow> (string \<times> ColumnStore) list \<Rightarrow>
   error + (string \<times> ColumnStore) list" where
  "createStores rt [] m = Inr m"
| "createStores rt (c # cs) m =
     (case newColumnStore rt (schemaOf c) DEFAULT_CAPACITY of
        Inl e \<Rightarrow> Inl e
      | Inr store \<Rightarrow> createStores rt cs (AList.update (typeId c) store m))"

definition newArchetype :: "js_runtime \<Rightarrow> ComponentConstructor list \<Rightarrow> error + Archetype" where
  "newArchetype rt cs =
     (let sorted = sortCtors rt cs in
      case createStores rt sorted [] of
        Inl e \<Rightarrow> Inl e
      | Inr m \<Rightarrow>
          Inr \<lparr>typeIds = map typeId sorted,
               ctors = sorted,
               entityIds = [],
               indexByEntity = Map.empty,
               stores = m\<rparr>)"

definition copyConstructorList :: "Archetype \<Rightarrow> ComponentConstructor list" where
  "copyConstructorList a = ctors a"


definition containsTypeId :: "Archetype \<Rightarrow> string \<Rightarrow> bool" where
  "containsTypeId a t \<longleftrightarrow> t \<in> set (typeIds a)"

text \<open>
  The methods of an archetype and of the world return the error alone when they throw; the
  state a throw leaves behind is not modelled at these levels.
\<close>

text \<open>The value \<^verbatim>\<open>addEntity\<close> stores for a component type: the one supplied, or a new instance.\<close>

definition valueFor :: "(string \<rightharpoonup> component) \<Rightarrow> ComponentConstructor \<Rightarrow> component" where
  "valueFor componentValues c =
     (case componentValues (typeId c) of None \<Rightarrow> newInstance c | Some compRaw \<Rightarrow> compRaw)"

fun setComponents ::
  "js_runtime \<Rightarrow> nat \<Rightarrow> (string \<rightharpoonup> component) \<Rightarrow> ComponentConstructor list \<Rightarrow>
   (string \<times> ColumnStore) list \<Rightarrow> error + (string \<times> ColumnStore) list" where
  "setComponents rt index componentValues [] sts = Inr sts"
| "setComponents rt index componentValues (c # cs) sts =
     (case map_of sts (typeId c) of
        None \<Rightarrow> Inl Error
      | Some store \<Rightarrow>
          (case set_cs rt store (int index) (valueFor componentValues c) of
             Inl (e, _) \<Rightarrow> Inl e
           | Inr store' \<Rightarrow>
               setComponents rt index componentValues cs (AList.update (typeId c) store' sts)))"

definition addEntity ::
  "js_runtime \<Rightarrow> Archetype \<Rightarrow> entity \<Rightarrow> (string \<rightharpoonup> component) \<Rightarrow> error + Archetype" where
  "addEntity rt a entity componentValues =
     (let index = length (entityIds a) in
      case setComponents rt index componentValues (ctors a) (stores a) of
        Inl e \<Rightarrow> Inl e
      | Inr sts \<Rightarrow>
          Inr (a\<lparr>entityIds := entityIds a @ [entity],
                 indexByEntity := (indexByEntity a)(entity \<mapsto> index),
                 stores := sts\<rparr>))"

fun removeRows :: "js_runtime \<Rightarrow> nat \<Rightarrow> (string \<times> ColumnStore) list \<Rightarrow> error + (string \<times> ColumnStore) list" where
  "removeRows rt idx [] = Inr []"
| "removeRows rt idx ((key, store) # rest) =
     (case swapRemove rt store (int idx) of
        Inl (e, _) \<Rightarrow> Inl e
      | Inr store' \<Rightarrow>
          (case removeRows rt idx rest of
             Inl e \<Rightarrow> Inl e
           | Inr rest' \<Rightarrow> Inr ((key, store') # rest')))"

text \<open>
  \<^verbatim>\<open>removeEntity\<close>. A row of the index map beyond the entity list does not occur (the map
  only ever holds rows of the list); the source would then write past the end of the list and
  fail in \<^verbatim>\<open>swapRemove\<close>, which the model records as the Error at once.
\<close>

definition removeEntity :: "js_runtime \<Rightarrow> Archetype \<Rightarrow> entity \<Rightarrow> error + Archetype" where
  "removeEntity rt a entity =
     (case indexByEntity a entity of
        None \<Rightarrow> Inr a
      | Some idx \<Rightarrow>
          if length (entityIds a) \<le> idx then Inl Error
          else
            (let lastRow = length (entityIds a) - 1;
                 lastEntity = entityIds a ! lastRow;
                 ids = butlast ((entityIds a)[idx := lastEntity]);
                 byEntity = (indexByEntity a)(entity := None)
             in if idx \<noteq> lastRow then
                  (case removeRows rt idx (stores a) of
                     Inl e \<Rightarrow> Inl e
                   | Inr sts \<Rightarrow>
                       Inr (a\<lparr>entityIds := ids, indexByEntity := byEntity(lastEntity \<mapsto> idx),
                              stores := sts\<rparr>))
                else
                  (case removeRows rt lastRow (stores a) of
                     Inl e \<Rightarrow> Inl e
                   | Inr sts \<Rightarrow>
                       Inr (a\<lparr>entityIds := ids, indexByEntity := byEntity, stores := sts\<rparr>))))"

definition indexOf :: "Archetype \<Rightarrow> entity \<Rightarrow> nat option" where
  "indexOf a entity = indexByEntity a entity"

definition getComponentAt :: "Archetype \<Rightarrow> ComponentConstructor \<Rightarrow> nat \<Rightarrow> error + component" where
  "getComponentAt a ctor index =
     (case map_of (stores a) (typeId ctor) of
        None \<Rightarrow> Inl Error
      | Some store \<Rightarrow> get_cs store (int index))"

fun copyValues ::
  "Archetype \<Rightarrow> nat \<Rightarrow> ComponentConstructor list \<Rightarrow> (string \<rightharpoonup> component) \<Rightarrow>
   error + (string \<rightharpoonup> component)" where
  "copyValues a indexSrc [] out = Inr out"
| "copyValues a indexSrc (c # cs) out =
     (case map_of (stores a) (typeId c) of
        None \<Rightarrow> copyValues a indexSrc cs (out(typeId c \<mapsto> newInstance c))
      | Some sourceStore \<Rightarrow>
          (case get_cs sourceStore (int indexSrc) of
             Inl e \<Rightarrow> Inl e
           | Inr val \<Rightarrow> copyValues a indexSrc cs (out(typeId c \<mapsto> val))))"

definition copyEntityTo :: "Archetype \<Rightarrow> nat \<Rightarrow> Archetype \<Rightarrow> error + (string \<rightharpoonup> component)" where
  "copyEntityTo a indexSrc target = copyValues a indexSrc (ctors target) Map.empty"

definition size_arch :: "Archetype \<Rightarrow> nat" where
  "size_arch a = length (entityIds a)"

text \<open>\<^verbatim>\<open>forEachIndexed\<close> visits the rows in order; the visits are the pairs of row and entity.\<close>

definition forEachIndexed :: "Archetype \<Rightarrow> (nat \<times> entity) list" where
  "forEachIndexed a = zip [0 ..< length (entityIds a)] (entityIds a)"

section \<open>world.ts\<close>

text \<open>
  The archetypes of a world are the objects held by \<^verbatim>\<open>archetypeBySignature\<close>, in insertion
  order; an entry is never removed or replaced. A reference to an archetype (the values of
  \<^verbatim>\<open>entityArchetype\<close>, the local variables of the methods) is modelled by the key under
  which the object is held, so that two references to one object stay one object.
\<close>

record World =
  nextEntityId :: entity
  entityArchetype :: "entity \<rightharpoonup> string"
  archetypeBySignature :: "(string \<times> Archetype) list"

definition newWorld :: World where
  "newWorld = \<lparr>nextEntityId = 1, entityArchetype = Map.empty, archetypeBySignature = []\<rparr>"

definition createEntity :: "World \<Rightarrow> entity \<times> World" where
  "createEntity w = (nextEntityId w, w\<lparr>nextEntityId := nextEntityId w + 1\<rparr>)"

definition getOrCreateArchetype ::
  "js_runtime \<Rightarrow> World \<Rightarrow> ComponentConstructor list \<Rightarrow> error + string \<times> World" where
  "getOrCreateArchetype rt w cs =
     (let tmp = sortCtors rt cs;
          sig = joinBar (map typeId tmp)
      in case map_of (archetypeBySignature w) sig of
           Some existing \<Rightarrow> Inr (sig, w)
         | None \<Rightarrow>
             (case newArchetype rt tmp of
                Inl e \<Rightarrow> Inl e
              | Inr archetype \<Rightarrow>
                  Inr (sig, w\<lparr>archetypeBySignature :=
                                AList.update sig archetype (archetypeBySignature w)\<rparr>)))"

text \<open>Running a method of the archetype behind a reference and storing the object it leaves.\<close>

definition withArchetype ::
  "World \<Rightarrow> string \<Rightarrow> (Archetype \<Rightarrow> error + Archetype) \<Rightarrow> error + World" where
  "withArchetype w ref f =
     (case map_of (archetypeBySignature w) ref of
        None \<Rightarrow> Inl Error
      | Some a \<Rightarrow>
          (case f a of
             Inl e \<Rightarrow> Inl e
           | Inr a' \<Rightarrow> Inr (w\<lparr>archetypeBySignature := AList.update ref a' (archetypeBySignature w)\<rparr>)))"

definition addEntityWithComponents ::
  "js_runtime \<Rightarrow> World \<Rightarrow> entity \<Rightarrow> (ComponentConstructor \<times> component) list \<Rightarrow> error + World" where
  "addEntityWithComponents rt w entity components =
     (case getOrCreateArchetype rt w (map fst components) of
        Inl e \<Rightarrow> Inl e
      | Inr (archetype, w1) \<Rightarrow>
          (let mapValues = foldl (\<lambda>m (k, v). m(typeId k \<mapsto> v)) Map.empty components
           in case withArchetype w1 archetype (\<lambda>a. addEntity rt a entity mapValues) of
                Inl e \<Rightarrow> Inl e
              | Inr w2 \<Rightarrow> Inr (w2\<lparr>entityArchetype := (entityArchetype w2)(entity \<mapsto> archetype)\<rparr>)))"

text \<open>
  The move of an entity that both branches of \<^verbatim>\<open>addComponent\<close> and
  \<^verbatim>\<open>removeComponent\<close> perform: copy the values out, overwrite one of them if asked,
  remove from the current archetype, add to the target, record the target.
\<close>

definition moveEntity ::
  "js_runtime \<Rightarrow> World \<Rightarrow> entity \<Rightarrow> string \<Rightarrow> string \<Rightarrow> nat \<Rightarrow> (string \<times> component) option \<Rightarrow>
   error + World" where
  "moveEntity rt w entity current target idx overwrite =
     (case (map_of (archetypeBySignature w) current, map_of (archetypeBySignature w) target) of
        (Some cur, Some tgt) \<Rightarrow>
          (case copyEntityTo cur idx tgt of
             Inl e \<Rightarrow> Inl e
           | Inr vals \<Rightarrow>
               (let values = (case overwrite of None \<Rightarrow> vals | Some (t, value) \<Rightarrow> vals(t \<mapsto> value)) in
                case withArchetype w current (\<lambda>a. removeEntity rt a entity) of
                  Inl e \<Rightarrow> Inl e
                | Inr w1 \<Rightarrow>
                    (case withArchetype w1 target (\<lambda>a. addEntity rt a entity values) of
                       Inl e \<Rightarrow> Inl e
                     | Inr w2 \<Rightarrow>
                         Inr (w2\<lparr>entityArchetype := (entityArchetype w2)(entity \<mapsto> target)\<rparr>))))
      | _ \<Rightarrow> Inl Error)"

definition addComponent ::
  "js_runtime \<Rightarrow> World \<Rightarrow> entity \<Rightarrow> ComponentConstructor \<Rightarrow> component \<Rightarrow> error + World" where
  "addComponent rt w entity ctor value =
     (let current = entityArchetype w entity;
          cur0 = (case current of
                    None \<Rightarrow> []
                  | Some r \<Rightarrow> (case map_of (archetypeBySignature w) r of
                                None \<Rightarrow> [] | Some a \<Rightarrow> copyConstructorList a));
          curCtors = (if list_ex (\<lambda>c. typeId c = typeId ctor) cur0 then cur0 else cur0 @ [ctor])
      in case getOrCreateArchetype rt w curCtors of
           Inl e \<Rightarrow> Inl e
         | Inr (target, w1) \<Rightarrow>
             (case current of
                None \<Rightarrow>
                  (case withArchetype w1 target
                          (\<lambda>a. addEntity rt a entity (Map.empty(typeId ctor \<mapsto> value))) of
                     Inl e \<Rightarrow> Inl e
                   | Inr w2 \<Rightarrow> Inr (w2\<lparr>entityArchetype := (entityArchetype w2)(entity \<mapsto> target)\<rparr>))
              | Some cur \<Rightarrow>
                  (case map_of (archetypeBySignature w1) cur of
                     None \<Rightarrow> Inl Error
                   | Some a \<Rightarrow>
                       (case indexOf a entity of
                          None \<Rightarrow> Inl Error
                        | Some idx \<Rightarrow>
                            moveEntity rt w1 entity cur target idx (Some (typeId ctor, value))))))"

definition removeComponent ::
  "js_runtime \<Rightarrow> World \<Rightarrow> entity \<Rightarrow> ComponentConstructor \<Rightarrow> error + World" where
  "removeComponent rt w entity ctor =
     (case entityArchetype w entity of
        None \<Rightarrow> Inr w
      | Some cur \<Rightarrow>
          (case map_of (archetypeBySignature w) cur of
             None \<Rightarrow> Inl Error
           | Some a \<Rightarrow>
               if \<not> containsTypeId a (typeId ctor) then Inr w
               else
                 (let newCtors = filter (\<lambda>c. typeId c \<noteq> typeId ctor) (copyConstructorList a)
                  in case getOrCreateArchetype rt w newCtors of
                       Inl e \<Rightarrow> Inl e
                     | Inr (target, w1) \<Rightarrow>
                         (case indexOf a entity of
                            None \<Rightarrow> Inr w1
                          | Some idx \<Rightarrow> moveEntity rt w1 entity cur target idx None))))"

definition destroyEntity :: "js_runtime \<Rightarrow> World \<Rightarrow> entity \<Rightarrow> error + World" where
  "destroyEntity rt w entity =
     (case entityArchetype w entity of
        None \<Rightarrow> Inr w
      | Some cur \<Rightarrow>
          (case withArchetype w cur (\<lambda>a. removeEntity rt a entity) of
             Inl e \<Rightarrow> Inl e
           | Inr w1 \<Rightarrow> Inr (w1\<lparr>entityArchetype := (entityArchetype w1)(entity := None)\<rparr>)))"

text \<open>
  \<^verbatim>\<open>query\<close>. The requested ids are sorted in the source before \<^verbatim>\<open>every\<close> runs over
  them, which does not change its answer. A result pairs the entity with the components in the
  order of the arguments.
\<close>

fun componentsAt :: "Archetype \<Rightarrow> nat \<Rightarrow> ComponentConstructor list \<Rightarrow> error + component list" where
  "componentsAt a index [] = Inr []"
| "componentsAt a index (ctor # rest) =
     (case getComponentAt a ctor index of
        Inl e \<Rightarrow> Inl e
      | Inr cmp \<Rightarrow>
          (case componentsAt a index rest of
             Inl e \<Rightarrow> Inl e
           | Inr comps \<Rightarrow> Inr (cmp # comps)))"

fun queryRows ::
  "Archetype \<Rightarrow> ComponentConstructor list \<Rightarrow> (nat \<times> entity) list \<Rightarrow>
   error + (entity \<times> component list) list" where
  "queryRows a cs [] = Inr []"
| "queryRows a cs ((index, entity) # rows) =
     (case componentsAt a index cs of
        Inl e \<Rightarrow> Inl e
      | Inr components \<Rightarrow>
          (case queryRows a cs rows of
             Inl e \<Rightarrow> Inl e
           | Inr out \<Rightarrow> Inr ((entity, components) # out)))"

fun queryArchetypes ::
  "ComponentConstructor list \<Rightarrow> Archetype list \<Rightarrow> error + (entity \<times> component list) list" where
  "queryArchetypes cs [] = Inr []"
| "queryArchetypes cs (archetype # rest) =
     (if \<not> list_all (containsTypeId archetype) (map typeId cs) then queryArchetypes cs rest
      else
        (case queryRows archetype cs (forEachIndexed archetype) of
           Inl e \<Rightarrow> Inl e
         | Inr out1 \<Rightarrow>
             (case queryArchetypes cs rest of
                Inl e \<Rightarrow> Inl e
              | Inr out2 \<Rightarrow> Inr (out1 @ out2))))"

definition query :: "World \<Rightarrow> ComponentConstructor list \<Rightarrow> error + (entity \<times> component list) list" where
  "query w cs = queryArchetypes cs (map snd (archetypeBySignature w))"

definition getComponent :: "World \<Rightarrow> entity \<Rightarrow> ComponentConstructor \<Rightarrow> error + component option" where
  "getComponent w entity ctor =
     (case entityArchetype w entity of
        None \<Rightarrow> Inr None
      | Some cur \<Rightarrow>
          (case map_of (archetypeBySignature w) cur of
             None \<Rightarrow> Inl Error
           | Some a \<Rightarrow>
               (case indexOf a entity of
                  None \<Rightarrow> Inr None
                | Some idx \<Rightarrow>
                    if \<not> containsTypeId a (typeId ctor) then Inr None
                    else (case getComponentAt a ctor idx of
                            Inl e \<Rightarrow> Inl e
                          | Inr cmp \<Rightarrow> Inr (Some cmp)))))"

text \<open>A component value that \<^verbatim>\<open>set\<close> can store under a schema: every field coerces and converts.\<close>

definition storable :: "js_runtime \<Rightarrow> ComponentSchema \<Rightarrow> component \<Rightarrow> bool" where
  "storable rt sch v \<longleftrightarrow>
     (\<forall>key ft. map_of sch key = Some ft \<longrightarrow>
        (\<exists>raw c. coerce rt (getProp v key) = Inr raw \<and> convertElement rt (classOf ft) raw = Inr c))"

section \<open>Well-formed archetypes and worlds\<close>

text \<open>
  The shape every method of an archetype keeps: the ids are those of the constructors, there is
  one well-formed store per id, every store has one row per entry of the entity list, and the
  index map only holds rows of the list that carry the entity.
\<close>

definition arch_shape :: "js_runtime \<Rightarrow> Archetype \<Rightarrow> bool" where
  "arch_shape rt a \<longleftrightarrow>
     typeIds a = map typeId (ctors a) \<and>
     distinct (map fst (stores a)) \<and>
     fst ` set (stores a) = set (typeIds a) \<and>
     (\<forall>k st. map_of (stores a) k = Some st \<longrightarrow> store_inv rt st \<and> size_cs st = length (entityIds a)) \<and>
     (\<forall>e i. indexByEntity a e = Some i \<longrightarrow> i < length (entityIds a) \<and> entityIds a ! i = e)"

text \<open>
  The invariant of the data model: moreover no entity occupies two rows and every entity of
  the list is in the index map.
\<close>

definition arch_inv :: "js_runtime \<Rightarrow> Archetype \<Rightarrow> bool" where
  "arch_inv rt a \<longleftrightarrow>
     arch_shape rt a \<and> distinct (entityIds a) \<and> (\<forall>e\<in>set (entityIds a). indexByEntity a e \<noteq> None)"


text \<open>The ids of an archetype are distinct and the store of a type has the schema of the type.\<close>

definition arch_typed :: "Archetype \<Rightarrow> bool" where
  "arch_typed a \<longleftrightarrow>
     distinct (typeIds a) \<and>
     (\<forall>c\<in>set (ctors a). \<forall>s. map_of (stores a) (typeId c) = Some s \<longrightarrow> schema s = schemaOf c)"

text \<open>
  The shape of a world: one entry per signature, every archetype of the shape above, and every
  reference of the entity directory behind an entry.
\<close>

definition world_shape :: "js_runtime \<Rightarrow> World \<Rightarrow> bool" where
  "world_shape rt w \<longleftrightarrow>
     distinct (map fst (archetypeBySignature w)) \<and>
     (\<forall>k a. map_of (archetypeBySignature w) k = Some a \<longrightarrow> arch_shape rt a) \<and>
     (\<forall>e k. entityArchetype w e = Some k \<longrightarrow> map_of (archetypeBySignature w) k \<noteq> None)"

text \<open>A query for the types \<open>cs\<close> visits the archetypes that own all of them.\<close>

definition matching :: "ComponentConstructor list \<Rightarrow> World \<Rightarrow> Archetype list" where
  "matching cs w =
     filter (\<lambda>a. set (map typeId cs) \<subseteq> set (typeIds a)) (map snd (archetypeBySignature w))"

text \<open>
  A set of component types that keeps the contract of a component type: the id identifies the
  type, is not empty and does not contain the separator of signatures, and the schema has one
  entry per field.
\<close>

definition registry :: "ComponentConstructor set \<Rightarrow> bool" where
  "registry U \<longleftrightarrow>
     inj_on typeId U \<and>
     (\<forall>c\<in>U. typeId c \<noteq> [] \<and> CHR ''|'' \<notin> set (typeId c) \<and> distinct (map fst (schemaOf c)))"

text \<open>
  Every archetype of the world was built by \<^verbatim>\<open>getOrCreateArchetype\<close> from types of the
  registry: its key is the signature of the sorted list it was built from.
\<close>

definition world_typed :: "js_runtime \<Rightarrow> ComponentConstructor set \<Rightarrow> World \<Rightarrow> bool" where
  "world_typed rt U w \<longleftrightarrow>
     (\<forall>k a. map_of (archetypeBySignature w) k = Some a \<longrightarrow>
        arch_typed a \<and> set (ctors a) \<subseteq> U \<and>
        (\<exists>tmp. k = joinBar (map typeId tmp) \<and> ctors a = sortCtors rt tmp))"

text \<open>
  The invariant of the entity directory: an entity is in the entity list of an archetype
  exactly when the directory records that archetype for it, and then in one row, which the
  index map holds.
\<close>

definition world_rows :: "World \<Rightarrow> bool" where
  "world_rows w \<longleftrightarrow>
     (\<forall>k a. map_of (archetypeBySignature w) k = Some a \<longrightarrow>
        distinct (entityIds a) \<and>
        (\<forall>e. e \<in> set (entityIds a) \<longleftrightarrow> entityArchetype w e = Some k) \<and>
        (\<forall>e\<in>set (entityIds a). indexByEntity a e \<noteq> None))"

section \<open>A runtime for the worked examples\<close>

text \<open>
  Collation by code unit, parsers of decimal literals, and narrow floats that keep every value:
  the examples only use numbers that the narrow formats hold exactly. A typed array is allocated
  when it has fewer than \<open>2\<^sup>3\<^sup>2\<close> elements.
\<close>

fun codeUnitCompare :: "string \<Rightarrow> string \<Rightarrow> int" where
  "codeUnitCompare [] [] = 0"
| "codeUnitCompare [] (b # bs) = - 1"
| "codeUnitCompare (a # as) [] = 1"
| "codeUnitCompare (a # as) (b # bs) =
     (if (of_char a :: nat) < of_char b then - 1
      else if (of_char b :: nat) < of_char a then 1
      else codeUnitCompare as bs)"

definition isDigit :: "char \<Rightarrow> bool" where
  "isDigit c \<longleftrightarrow> c \<in> set ''0123456789''"

definition isWhite :: "char \<Rightarrow> bool" where
  "isWhite c \<longleftrightarrow> c \<in> {CHR '' '', CHR 0x09, CHR 0x0A, CHR 0x0D}"

definition decimalValue :: "string \<Rightarrow> nat" where
  "decimalValue ds = foldl (\<lambda>n c. 10 * n + (of_char c - 48)) 0 ds"

definition isNegative :: "string \<Rightarrow> bool" where
  "isNegative str = (case str of c # _ \<Rightarrow> c = CHR ''-'' | [] \<Rightarrow> False)"

definition dropSign :: "string \<Rightarrow> string" where
  "dropSign str = (case str of c # cs \<Rightarrow> if c = CHR ''-'' \<or> c = CHR ''+'' then cs else str | [] \<Rightarrow> [])"

definition parseIntDecimal :: "string \<Rightarrow> jsnum" where
  "parseIntDecimal str =
     (let s1 = dropWhile isWhite str;
          ds = takeWhile isDigit (dropSign s1)
      in if ds = [] then NaN
         else Fin (of_nat (decimalValue ds) * (if isNegative s1 then - 1 else 1)))"

definition exponentOf :: "string \<Rightarrow> int" where
  "exponentOf r =
     (case r of
        [] \<Rightarrow> 0
      | c # cs \<Rightarrow>
          if c = CHR ''e'' \<or> c = CHR ''E'' then
            (let ds = takeWhile isDigit (dropSign cs)
             in if isNegative cs then - int (decimalValue ds) else int (decimalValue ds))
          else 0)"

definition pow10 :: "int \<Rightarrow> rat" where
  "pow10 e = (if e < 0 then 1 / 10 ^ nat (- e) else 10 ^ nat e)"

definition parseFloatDecimal :: "string \<Rightarrow> jsnum" where
  "parseFloatDecimal str =
     (let s1 = dropWhile isWhite str;
          s2 = dropSign s1;
          ip = takeWhile isDigit s2;
          r1 = dropWhile isDigit s2;
          hasPoint = (case r1 of c # _ \<Rightarrow> c = CHR ''.'' | [] \<Rightarrow> False);
          fp = (if hasPoint then takeWhile isDigit (tl r1) else []);
          r2 = (if hasPoint then dropWhile isDigit (tl r1) else r1)
      in if take 8 s2 = ''Infinity'' then (if isNegative s1 then NegInf else PosInf)
         else if ip = [] \<and> fp = [] then NaN
         else Fin ((if isNegative s1 then - 1 else 1) *
                   (of_nat (decimalValue ip) + of_nat (decimalValue fp) / 10 ^ length fp) *
                   pow10 (exponentOf r2)))"

definition testRuntime :: js_runtime where
  "testRuntime =
     \<lparr>localeCompare = codeUnitCompare,
      parseFloat = parseFloatDecimal,
      parseInt = parseIntDecimal,
      toFloat16 = (\<lambda>x. x),
      toFloat32 = (\<lambda>x. x),
      allocates = (\<lambda>c len. int len < 4294967296)\<rparr>"

text \<open>The schema of the store tests, and the store they build with capacity 2 and one row set.\<close>

definition compSchema :: ComponentSchema where
  "compSchema = [(''x'', F32), (''flag'', BOOL), (''id'', BI64), (''name'', I32)]"

definition compStore :: ColumnStore where
  "compStore =
     \<lparr>schema = compSchema,
      typedArrayMap =
        [(''x'', \<lparr>cls = Float32Array, elems = [VNumber (Fin (3 / 2)), VNumber (Fin 0)]\<rparr>),
         (''flag'', \<lparr>cls = Uint8Array, elems = [VNumber (Fin 1), VNumber (Fin 0)]\<rparr>),
         (''id'', \<lparr>cls = BigInt64Array, elems = [VBigInt 10, VBigInt 0]\<rparr>),
         (''name'', \<lparr>cls = Int32Array, elems = [VNumber (Fin 42), VNumber (Fin 0)]\<rparr>)],
      capacity = 2,
      size_cs = 1\<rparr>"

definition compValue :: component where
  "compValue = [(''x'', VString ''3.5''), (''flag'', VBool True), (''id'', VBigInt 123), (''name'', VString ''42'')]"



text \<open>The component types of the tests.\<close>

definition Position :: ComponentConstructor where
  "Position =
     \<lparr>typeId = ''Position'', schemaOf = [(''x'', F32), (''y'', F32)],
      newInstance = [(''x'', VNumber (Fin 0)), (''y'', VNumber (Fin 0))]\<rparr>"

definition Velocity :: ComponentConstructor where
  "Velocity =
     \<lparr>typeId = ''Velocity'', schemaOf = [(''vx'', F32), (''vy'', F32)],
      newInstance = [(''vx'', VNumber (Fin 0)), (''vy'', VNumber (Fin 0))]\<rparr>"

definition Health :: ComponentConstructor where
  "Health =
     \<lparr>typeId = ''Health'', schemaOf = [(''hp'', F32)], newInstance = [(''hp'', VNumber (Fin 100))]\<rparr>"

definition position :: "rat \<Rightarrow> rat \<Rightarrow> component" where
  "position x y = [(''x'', VNumber (Fin x)), (''y'', VNumber (Fin y))]"

definition velocity :: "rat \<Rightarrow> rat \<Rightarrow> component" where
  "velocity vx vy = [(''vx'', VNumber (Fin vx)), (''vy'', VNumber (Fin vy))]"

definition health :: "rat \<Rightarrow> component" where
  "health hp = [(''hp'', VNumber (Fin hp))]"

text \<open>Reading the result of a method of a store: the error it threw, and the store it left.\<close>

definition thrownError :: "'a thrown \<Rightarrow> error option" where
  "thrownError r = (case r of Inl (e, s) \<Rightarrow> Some e | Inr s \<Rightarrow> None)"

definition storeOf :: "'a thrown \<Rightarrow> 'a" where
  "storeOf r = (case r of Inl (e, s) \<Rightarrow> s | Inr s \<Rightarrow> s)"

text \<open>Running one call after another; the first throw ends the run.\<close>

definition andThen :: "error + 'a \<Rightarrow> ('a \<Rightarrow> error + 'b) \<Rightarrow> error + 'b" where
  "andThen r f = (case r of Inl e \<Rightarrow> Inl e | Inr x \<Rightarrow> f x)"

text \<open>The archetype test: three entities with a position each.\<close>

definition threeEntities :: "error + Archetype" where
  "threeEntities =
     andThen (newArchetype testRuntime [Position])
       (\<lambda>a0. andThen (addEntity testRuntime a0 1 [''Position'' \<mapsto> position 10 0])
          (\<lambda>a1. andThen (addEntity testRuntime a1 2 [''Position'' \<mapsto> position 20 0])
             (\<lambda>a2. addEntity testRuntime a2 3 [''Position'' \<mapsto> position 30 0])))"

text \<open>One entity added twice to an archetype.\<close>

definition addedTwice :: "error + Archetype" where
  "addedTwice =
     andThen (newArchetype testRuntime [Position])
       (\<lambda>a0. andThen (addEntity testRuntime a0 1 [''Position'' \<mapsto> position 10 0])
          (\<lambda>a1. addEntity testRuntime a1 1 [''Position'' \<mapsto> position 20 0]))"

definition rowOf :: "entity \<Rightarrow> Archetype \<Rightarrow> nat option" where
  "rowOf entity a = indexOf a entity"

definition addedTwiceRemoved :: "error + Archetype" where
  "addedTwiceRemoved = andThen addedTwice (\<lambda>a. removeEntity testRuntime a 1)"

text \<open>Reading a world that a run returned.\<close>

definition entitiesOf :: "string \<Rightarrow> World \<Rightarrow> entity list" where
  "entitiesOf ref w = (case map_of (archetypeBySignature w) ref of None \<Rightarrow> [] | Some a \<Rightarrow> entityIds a)"

definition rowIn :: "string \<Rightarrow> entity \<Rightarrow> World \<Rightarrow> nat option" where
  "rowIn ref entity w =
     (case map_of (archetypeBySignature w) ref of None \<Rightarrow> None | Some a \<Rightarrow> indexOf a entity)"

definition queryOf :: "ComponentConstructor list \<Rightarrow> World \<Rightarrow> error + (entity \<times> component list) list" where
  "queryOf cs w = query w cs"

definition componentOf :: "entity \<Rightarrow> ComponentConstructor \<Rightarrow> World \<Rightarrow> error + component option" where
  "componentOf entity ctor w = getComponent w entity ctor"

text \<open>One entity given its components twice.\<close>

definition addedTwiceWorld :: "error + World" where
  "addedTwiceWorld =
     andThen (addEntityWithComponents testRuntime newWorld 1 [(Position, position 1 1)])
       (\<lambda>w. addEntityWithComponents testRuntime w 1 [(Position, position 2 2)])"

definition addedTwiceDestroyed :: "error + World" where
  "addedTwiceDestroyed = andThen addedTwiceWorld (\<lambda>w. destroyEntity testRuntime w 1)"

text \<open>A world with one entity that has a position.\<close>

definition onePosition :: "error + World" where
  "onePosition = addEntityWithComponents testRuntime newWorld 1 [(Position, position 1 1)]"

text \<open>
  A world with two entities that have a position and a velocity, given in either order, and one
  entity that has a position only.
\<close>

definition movers :: "error + World" where
  "movers =
     andThen (addEntityWithComponents testRuntime newWorld 1
                [(Position, position 1 2), (Velocity, velocity 3 4)])
       (\<lambda>w1. andThen (addEntityWithComponents testRuntime w1 2
                         [(Velocity, velocity 7 8), (Position, position 5 6)])
          (\<lambda>w2. addEntityWithComponents testRuntime w2 3 [(Position, position 9 9)]))"





definition tag :: "rat \<Rightarrow> component" where
  "tag v = [(''v'', VNumber (Fin v))]"



text \<open>One entity given a position and a velocity twice.\<close>

definition moverTwice :: "error + World" where
  "moverTwice =
     andThen (addEntityWithComponents testRuntime newWorld 1
                [(Position, position 1 2), (Velocity, velocity 3 4)])
       (\<lambda>w. addEntityWithComponents testRuntime w 1
               [(Position, position 5 6), (Velocity, velocity 7 8)])"

section \<open>Lemmas on the conversions and the growth loop\<close>

lemma growLoop_spec:
  "0 < c \<Longrightarrow> \<exists>k. growLoop c m = Some (c * 2 ^ k) \<and> m \<le> c * 2 ^ k \<and> (\<forall>j. m \<le> c * 2 ^ j \<longrightarrow> k \<le> j)"
proof (induction "m - c" arbitrary: c rule: less_induct)
  case less
  show ?case
  proof (cases "c < m")
    case False
    then have "growLoop c m = Some (c * 2 ^ 0)" by (subst growLoop.simps) simp
    with False show ?thesis by (intro exI[of _ 0]) auto
  next
    case True
    with less.prems have "m - c * 2 < m - c" by simp
    from less.hyps[OF this] less.prems obtain k where
      k: "growLoop (c * 2) m = Some (c * 2 * 2 ^ k)" "m \<le> c * 2 * 2 ^ k"
         "\<forall>j. m \<le> c * 2 * 2 ^ j \<longrightarrow> k \<le> j" by auto
    have g: "growLoop c m = Some (c * 2 ^ Suc k)"
      using True k(1) by (subst growLoop.simps) (simp add: mult.assoc)
    have mn: "\<forall>j. m \<le> c * 2 ^ j \<longrightarrow> Suc k \<le> j"
    proof (intro allI impI)
      fix j assume j: "m \<le> c * 2 ^ j"
      show "Suc k \<le> j"
      proof (cases j)
        case 0 with j True show ?thesis by simp
      next
        case (Suc j')
        with j have "m \<le> c * 2 * 2 ^ j'" by (simp add: mult.assoc)
        with k(3) Suc show ?thesis by simp
      qed
    qed
    from g k(2) mn show ?thesis by (intro exI[of _ "Suc k"]) (simp add: mult.assoc)
  qed
qed

lemma wrapU_idem: "wrapU w (wrapU w n) = wrapU w n"
  by (simp add: wrapU_def)
lemma wrapS_idem: "0 < w \<Longrightarrow> wrapS w (wrapS w n) = wrapS w n"
  unfolding wrapS_def
  by (smt (verit) mod_mod_trivial)

lemma truncq_of_int: "truncq (of_int k) = k"
  by (simp add: truncq_def)

lemma toIntegral_Fin_int: "toIntegral (Fin (of_int k)) = k"
  by (simp add: toIntegral_def truncq_of_int)

lemma clamp_range: "0 \<le> toUint8Clamp x \<and> toUint8Clamp x \<le> 255"
  unfolding toUint8Clamp_def roundHalfEven_def Let_def
  by (cases x) (auto simp: floor_le_iff le_floor_iff; linarith)+

lemma clamp_idem: "toUint8Clamp (Fin (of_int (toUint8Clamp x))) = toUint8Clamp x"
  using clamp_range[of x]
  unfolding toUint8Clamp_def[of "Fin _"] roundHalfEven_def Let_def
  by (auto simp: )

section \<open>Lemmas on typed arrays and the field loop\<close>

lemma convertElement_idem:
  assumes "rt_ok rt" "convertElement rt c v = Inr x"
  shows "convertElement rt c x = Inr x"
proof (cases "isBigClass c")
  case True
  with assms(2) show ?thesis
    by (cases v) (auto simp: convertElement_def wrapS_idem wrapU_idem wrapS_def wrapU_def split: if_splits)
next
  case False
  then obtain y where x: "x = VNumber (toElement rt c y)"
    using assms(2) by (cases v) (auto simp: convertElement_def)
  have "toElement rt c (toElement rt c y) = toElement rt c y"
    using assms(1)
    by (cases c) (simp_all add: rt_ok_def toIntegral_Fin_int wrapS_idem wrapU_idem clamp_idem)
  with False x show ?thesis by (simp add: convertElement_def)
qed

lemma zero_valid: "rt_ok rt \<Longrightarrow> validElem rt c (zeroOf c)"
  by (cases c) (simp_all add: validElem_def zeroOf_def convertElement_def isBigClass_def rt_ok_def
      toIntegral_def truncq_def wrapS_def wrapU_def toUint8Clamp_def)

lemma taSet_Inr:
  assumes "taSet rt arr i v = Inr arr'"
  shows "\<exists>c. convertElement rt (cls arr) v = Inr c \<and> cls arr' = cls arr \<and>
             length (elems arr') = length (elems arr) \<and>
             (\<forall>j. taGet arr' j = (if j = i \<and> 0 \<le> i \<and> i < int (length (elems arr)) then c else taGet arr j))"
  using assms
  by (auto simp: taSet_def taGet_def split: sum.splits if_splits)

lemma taSet_valid:
  assumes "rt_ok rt" "taSet rt arr i v = Inr arr'" "list_all (validElem rt (cls arr)) (elems arr)"
  shows "list_all (validElem rt (cls arr')) (elems arr')"
proof -
  from assms(2) obtain c where c: "convertElement rt (cls arr) v = Inr c"
    and a': "arr' = (if 0 \<le> i \<and> i < int (length (elems arr)) then arr\<lparr>elems := (elems arr)[nat i := c]\<rparr> else arr)"
    by (auto simp: taSet_def split: sum.splits)
  have "validElem rt (cls arr) c" using convertElement_idem[OF assms(1) c] by (simp add: validElem_def)
  with assms(3) a' show ?thesis
    by (auto simp: list_all_iff dest!: set_update_subset_insert[THEN subsetD])
qed

lemma forEachField_Inr:
  assumes "forEachField body keys s = Inr s'" "distinct keys"
  shows "schema s' = schema s \<and> capacity s' = capacity s \<and> size_cs s' = size_cs s \<and>
         map fst (typedArrayMap s') = map fst (typedArrayMap s) \<and>
         (\<forall>k. (k \<in> set keys \<longrightarrow> (\<exists>arr arr'. map_of (typedArrayMap s) k = Some arr \<and> body k arr = Inr arr' \<and>
                                    map_of (typedArrayMap s') k = Some arr')) \<and>
              (k \<notin> set keys \<longrightarrow> map_of (typedArrayMap s') k = map_of (typedArrayMap s) k))"
  using assms
proof (induction keys arbitrary: s)
  case Nil
  then show ?case by simp
next
  case (Cons key keys)
  from Cons.prems(1) obtain arr arr1 where
    arr: "map_of (typedArrayMap s) key = Some arr" and b: "body key arr = Inr arr1" and
    rest: "forEachField body keys (s\<lparr>typedArrayMap := AList.update key arr1 (typedArrayMap s)\<rparr>) = Inr s'"
    by (auto split: option.splits sum.splits)
  let ?s1 = "s\<lparr>typedArrayMap := AList.update key arr1 (typedArrayMap s)\<rparr>"
  from Cons.prems(2) have d: "distinct keys" and nk: "key \<notin> set keys" by auto
  note IH = Cons.IH[OF rest d]
  have keyin: "key \<in> fst ` set (typedArrayMap s)"
    using arr by (metis map_of_eq_None_iff option.distinct(1))
  have keys1: "map fst (typedArrayMap ?s1) = map fst (typedArrayMap s)"
    using keyin by (simp add: update_keys)
  have m1: "map_of (typedArrayMap ?s1) = (map_of (typedArrayMap s))(key \<mapsto> arr1)"
    by (simp add: update_conv')
  have pw: "(k \<in> set (key # keys) \<longrightarrow> (\<exists>arr arr'. map_of (typedArrayMap s) k = Some arr \<and> body k arr = Inr arr' \<and>
                                    map_of (typedArrayMap s') k = Some arr')) \<and>
              (k \<notin> set (key # keys) \<longrightarrow> map_of (typedArrayMap s') k = map_of (typedArrayMap s) k)" for k
  proof (cases "k = key")
    case True
    with IH nk m1 arr b show ?thesis by simp
  next
    case False
    from IH have "(k \<in> set keys \<longrightarrow> (\<exists>arr arr'. map_of (typedArrayMap ?s1) k = Some arr \<and> body k arr = Inr arr' \<and>
                                    map_of (typedArrayMap s') k = Some arr')) \<and>
              (k \<notin> set keys \<longrightarrow> map_of (typedArrayMap s') k = map_of (typedArrayMap ?s1) k)" by blast
    with False m1 show ?thesis by simp
  qed
  from IH keys1 have "schema s' = schema s \<and> capacity s' = capacity s \<and> size_cs s' = size_cs s \<and>
         map fst (typedArrayMap s') = map fst (typedArrayMap s)" by simp
  with pw show ?case by blast
qed

lemma forEachField_Inl:
  assumes "forEachField body keys s = Inl (e, s')"
  shows "schema s' = schema s \<and> capacity s' = capacity s \<and> size_cs s' = size_cs s"
  using assms
  by (induction keys arbitrary: s) (auto split: option.splits sum.splits)

lemma forEachField_succeeds:
  assumes "distinct keys"
    "\<forall>k\<in>set keys. \<exists>arr arr'. map_of (typedArrayMap s) k = Some arr \<and> body k arr = Inr arr'"
  shows "\<exists>s'. forEachField body keys s = Inr s'"
  using assms
proof (induction keys arbitrary: s)
  case Nil
  then show ?case by simp
next
  case (Cons key keys)
  from Cons.prems obtain arr arr1 where
    arr: "map_of (typedArrayMap s) key = Some arr" and b: "body key arr = Inr arr1" by auto
  let ?s1 = "s\<lparr>typedArrayMap := AList.update key arr1 (typedArrayMap s)\<rparr>"
  have "\<forall>k\<in>set keys. \<exists>arr arr'. map_of (typedArrayMap ?s1) k = Some arr \<and> body k arr = Inr arr'"
    using Cons.prems by (auto simp: update_conv')
  with Cons.IH[of ?s1] Cons.prems(1) obtain s' where "forEachField body keys ?s1 = Inr s'" by auto
  with arr b show ?case by simp
qed

lemma copyInto_same:
  assumes "cls old = classOf ft" "length (elems old) \<le> newCap"
  shows "copyInto rt (zeroArray (classOf ft) newCap) old =
         \<lparr>cls = classOf ft, elems = elems old @ replicate (newCap - length (elems old)) (zeroOf (classOf ft))\<rparr>"
  using assms by (simp add: copyInto_def zeroArray_def Let_def)

lemma createArrayForType_cases:
  "createArrayForType rt ft len =
     (if allocates rt (classOf ft) len then Inr (zeroArray (classOf ft) len) else Inl RangeError)"
  by (simp add: createArrayForType_def newTypedArray_def)

lemma growArrays_Inr:
  assumes "distinct (map fst entries)"
    "\<forall>(k, arr)\<in>set entries. \<exists>ft. map_of (schema s) k = Some ft \<and> cls arr = classOf ft"
    "fst ` set entries \<subseteq> fst ` set (typedArrayMap s)"
    "\<forall>(k, arr)\<in>set entries. \<forall>ft. map_of (schema s) k = Some ft \<longrightarrow> allocates rt (classOf ft) newCap"
  shows "\<exists>s'. growArrays rt newCap entries s = Inr s' \<and> schema s' = schema s \<and>
           capacity s' = capacity s \<and> size_cs s' = size_cs s \<and>
           map fst (typedArrayMap s') = map fst (typedArrayMap s) \<and>
           (\<forall>k. (\<forall>arr. map_of entries k = Some arr \<longrightarrow>
                    (\<exists>ft. map_of (schema s) k = Some ft \<and>
                      map_of (typedArrayMap s') k = Some (copyInto rt (zeroArray (classOf ft) newCap) arr))) \<and>
                (map_of entries k = None \<longrightarrow> map_of (typedArrayMap s') k = map_of (typedArrayMap s) k))"
  using assms
proof (induction entries arbitrary: s)
  case Nil
  then show ?case by simp
next
  case (Cons e entries)
  obtain key oldArr where e: "e = (key, oldArr)" by (cases e)
  from Cons.prems(2) e obtain ft where ft: "map_of (schema s) key = Some ft" "cls oldArr = classOf ft"
    by auto
  let ?new = "copyInto rt (zeroArray (classOf ft) newCap) oldArr"
  let ?s1 = "s\<lparr>typedArrayMap := AList.update key ?new (typedArrayMap s)\<rparr>"
  from Cons.prems(4) e ft have al: "allocates rt (classOf ft) newCap" by auto
  have step: "growArrays rt newCap (e # entries) s = growArrays rt newCap entries ?s1"
    using e ft al by (simp add: createArrayForType_cases zeroArray_def)
  have keyin: "key \<in> fst ` set (typedArrayMap s)" using Cons.prems(3) e by auto
  have keys1: "map fst (typedArrayMap ?s1) = map fst (typedArrayMap s)"
    using keyin by (simp add: update_keys)
  have m1: "map_of (typedArrayMap ?s1) = (map_of (typedArrayMap s))(key \<mapsto> ?new)"
    by (simp add: update_conv')
  from Cons.prems(1) e have d: "distinct (map fst entries)" and nk: "key \<notin> fst ` set entries" by auto
  have p2: "\<forall>(k, arr)\<in>set entries. \<exists>ft. map_of (schema ?s1) k = Some ft \<and> cls arr = classOf ft"
    using Cons.prems(2) by auto
  have p3: "fst ` set entries \<subseteq> fst ` set (typedArrayMap ?s1)"
    using Cons.prems(3) keys1 by (metis (no_types, lifting) list.set_map set_subset_Cons image_mono subset_trans)
  have p4: "\<forall>(k, arr)\<in>set entries. \<forall>ft. map_of (schema ?s1) k = Some ft \<longrightarrow> allocates rt (classOf ft) newCap"
    using Cons.prems(4) by auto
  from Cons.IH[OF d p2 p3 p4] obtain s' where
    s': "growArrays rt newCap entries ?s1 = Inr s'" "schema s' = schema ?s1"
        "capacity s' = capacity ?s1" "size_cs s' = size_cs ?s1"
        "map fst (typedArrayMap s') = map fst (typedArrayMap ?s1)"
        "\<And>k. (\<forall>arr. map_of entries k = Some arr \<longrightarrow>
                    (\<exists>ft. map_of (schema ?s1) k = Some ft \<and>
                      map_of (typedArrayMap s') k = Some (copyInto rt (zeroArray (classOf ft) newCap) arr))) \<and>
                (map_of entries k = None \<longrightarrow> map_of (typedArrayMap s') k = map_of (typedArrayMap ?s1) k)"
    by blast
  have nk': "map_of entries key = None" using nk by (simp add: map_of_eq_None_iff)
  have pw: "(\<forall>arr. map_of (e # entries) k = Some arr \<longrightarrow>
                    (\<exists>ft. map_of (schema s) k = Some ft \<and>
                      map_of (typedArrayMap s') k = Some (copyInto rt (zeroArray (classOf ft) newCap) arr))) \<and>
                (map_of (e # entries) k = None \<longrightarrow> map_of (typedArrayMap s') k = map_of (typedArrayMap s) k)" for k
  proof (cases "k = key")
    case True
    with s'(6)[of key] nk' m1 e ft show ?thesis by simp
  next
    case False
    with s'(6)[of k] m1 e show ?thesis by simp
  qed
  from s' keys1 step pw show ?case by (intro exI[of _ s']) simp
qed

lemma growArrays_Inl:
  assumes "distinct (map fst entries)"
    "\<forall>(k, arr)\<in>set entries. \<exists>ft. map_of (schema s) k = Some ft \<and> cls arr = classOf ft"
    "fst ` set entries \<subseteq> fst ` set (typedArrayMap s)"
    "\<not> (\<forall>(k, arr)\<in>set entries. \<forall>ft. map_of (schema s) k = Some ft \<longrightarrow> allocates rt (classOf ft) newCap)"
  shows "\<exists>s'. growArrays rt newCap entries s = Inl (RangeError, s') \<and> schema s' = schema s \<and>
           capacity s' = capacity s \<and> size_cs s' = size_cs s \<and>
           map fst (typedArrayMap s') = map fst (typedArrayMap s) \<and>
           (\<forall>k. (\<forall>arr. map_of entries k = Some arr \<longrightarrow>
                    (\<exists>ft. map_of (schema s) k = Some ft \<and>
                      (map_of (typedArrayMap s') k = Some (copyInto rt (zeroArray (classOf ft) newCap) arr) \<or>
                       map_of (typedArrayMap s') k = map_of (typedArrayMap s) k))) \<and>
                (map_of entries k = None \<longrightarrow> map_of (typedArrayMap s') k = map_of (typedArrayMap s) k))"
  using assms
proof (induction entries arbitrary: s)
  case Nil
  then show ?case by simp
next
  case (Cons e entries)
  obtain key oldArr where e: "e = (key, oldArr)" by (cases e)
  from Cons.prems(2) e obtain ft where ft: "map_of (schema s) key = Some ft" "cls oldArr = classOf ft"
    by auto
  have classes: "\<forall>arr. map_of (e # entries) k = Some arr \<longrightarrow> (\<exists>ft. map_of (schema s) k = Some ft)" for k
  proof (intro allI impI)
    fix arr assume "map_of (e # entries) k = Some arr"
    then have "(k, arr) \<in> set (e # entries)" by (rule map_of_SomeD)
    with Cons.prems(2) show "\<exists>ft. map_of (schema s) k = Some ft" by fastforce
  qed
  show ?case
  proof (cases "allocates rt (classOf ft) newCap")
    case False
    then have "growArrays rt newCap (e # entries) s = Inl (RangeError, s)"
      using e ft by (simp add: createArrayForType_cases)
    with classes show ?thesis by (intro exI[of _ s]) simp
  next
    case True
    let ?new = "copyInto rt (zeroArray (classOf ft) newCap) oldArr"
    let ?s1 = "s\<lparr>typedArrayMap := AList.update key ?new (typedArrayMap s)\<rparr>"
    have step: "growArrays rt newCap (e # entries) s = growArrays rt newCap entries ?s1"
      using e ft True by (simp add: createArrayForType_cases zeroArray_def)
    have keyin: "key \<in> fst ` set (typedArrayMap s)" using Cons.prems(3) e by auto
    have keys1: "map fst (typedArrayMap ?s1) = map fst (typedArrayMap s)"
      using keyin by (simp add: update_keys)
    have m1: "map_of (typedArrayMap ?s1) = (map_of (typedArrayMap s))(key \<mapsto> ?new)"
      by (simp add: update_conv')
    from Cons.prems(1) e have d: "distinct (map fst entries)" and nk: "key \<notin> fst ` set entries" by auto
    have p2: "\<forall>(k, arr)\<in>set entries. \<exists>ft. map_of (schema ?s1) k = Some ft \<and> cls arr = classOf ft"
      using Cons.prems(2) by auto
    have p3: "fst ` set entries \<subseteq> fst ` set (typedArrayMap ?s1)"
      using Cons.prems(3) keys1 by (metis (no_types, lifting) list.set_map set_subset_Cons image_mono subset_trans)
    have p4: "\<not> (\<forall>(k, arr)\<in>set entries. \<forall>ft. map_of (schema ?s1) k = Some ft \<longrightarrow> allocates rt (classOf ft) newCap)"
    proof
      assume a: "\<forall>(k, arr)\<in>set entries. \<forall>ft. map_of (schema ?s1) k = Some ft \<longrightarrow> allocates rt (classOf ft) newCap"
      have "\<forall>(k, arr)\<in>set (e # entries). \<forall>ft. map_of (schema s) k = Some ft \<longrightarrow> allocates rt (classOf ft) newCap"
        using a e ft True by auto
      with Cons.prems(4) show False by blast
    qed
    from Cons.IH[OF d p2 p3 p4] obtain s' where
      s': "growArrays rt newCap entries ?s1 = Inl (RangeError, s')" "schema s' = schema ?s1"
          "capacity s' = capacity ?s1" "size_cs s' = size_cs ?s1"
          "map fst (typedArrayMap s') = map fst (typedArrayMap ?s1)"
          "\<And>k. (\<forall>arr. map_of entries k = Some arr \<longrightarrow>
                    (\<exists>ft. map_of (schema ?s1) k = Some ft \<and>
                      (map_of (typedArrayMap s') k = Some (copyInto rt (zeroArray (classOf ft) newCap) arr) \<or>
                       map_of (typedArrayMap s') k = map_of (typedArrayMap ?s1) k))) \<and>
                (map_of entries k = None \<longrightarrow> map_of (typedArrayMap s') k = map_of (typedArrayMap ?s1) k)"
      by blast
    have nk': "map_of entries key = None" using nk by (simp add: map_of_eq_None_iff)
    have pw: "(\<forall>arr. map_of (e # entries) k = Some arr \<longrightarrow>
                    (\<exists>ft. map_of (schema s) k = Some ft \<and>
                      (map_of (typedArrayMap s') k = Some (copyInto rt (zeroArray (classOf ft) newCap) arr) \<or>
                       map_of (typedArrayMap s') k = map_of (typedArrayMap s) k))) \<and>
                (map_of (e # entries) k = None \<longrightarrow> map_of (typedArrayMap s') k = map_of (typedArrayMap s) k)" for k
    proof (cases "k = key")
      case True
      with s'(6)[of key] nk' m1 e ft show ?thesis by simp
    next
      case False
      with s'(6)[of k] m1 e show ?thesis by simp
    qed
    from s' keys1 step pw show ?thesis by (intro exI[of _ s']) simp
  qed
qed

lemma allocatesFor_entries:
  assumes inv: "store_inv rt s"
  shows "(\<forall>(k, arr)\<in>set (typedArrayMap s). \<forall>ft. map_of (schema s) k = Some ft \<longrightarrow>
            allocates rt (classOf ft) newCap) \<longleftrightarrow> allocatesFor rt (schema s) newCap"
proof -
  from inv have d: "distinct (map fst (schema s))"
    and keys: "map fst (typedArrayMap s) = map fst (schema s)" by (simp_all add: store_inv_def)
  show ?thesis
  proof
    assume a: "\<forall>(k, arr)\<in>set (typedArrayMap s). \<forall>ft. map_of (schema s) k = Some ft \<longrightarrow>
            allocates rt (classOf ft) newCap"
    have "allocates rt (classOf ft) newCap" if m: "(k, ft) \<in> set (schema s)" for k ft
    proof -
      from m have "k \<in> set (map fst (typedArrayMap s))" unfolding keys by force
      then obtain arr where ar: "(k, arr) \<in> set (typedArrayMap s)" by auto
      from d m have "map_of (schema s) k = Some ft" by simp
      with a ar show ?thesis by blast
    qed
    then show "allocatesFor rt (schema s) newCap" by (auto simp: allocatesFor_def list_all_iff)
  next
    assume a: "allocatesFor rt (schema s) newCap"
    show "\<forall>(k, arr)\<in>set (typedArrayMap s). \<forall>ft. map_of (schema s) k = Some ft \<longrightarrow>
            allocates rt (classOf ft) newCap"
    proof (clarify)
      fix k arr ft assume "map_of (schema s) k = Some ft"
      then have "(k, ft) \<in> set (schema s)" by (rule map_of_SomeD)
      with a show "allocates rt (classOf ft) newCap" by (auto simp: allocatesFor_def list_all_iff)
    qed
  qed
qed

lemma store_inv_field:
  assumes "store_inv rt s" "map_of (schema s) key = Some ft"
  shows "\<exists>arr. map_of (typedArrayMap s) key = Some arr \<and> arrayFor rt (capacity s) ft arr"
  using assms unfolding store_inv_def by blast

lemma store_inv_lookup:
  assumes "store_inv rt s" "map_of (typedArrayMap s) key = Some arr"
  shows "\<exists>ft. map_of (schema s) key = Some ft \<and> arrayFor rt (capacity s) ft arr"
proof -
  from assms(2) have "key \<in> fst ` set (typedArrayMap s)"
    by (metis map_of_eq_None_iff option.distinct(1))
  moreover have "map fst (typedArrayMap s) = map fst (schema s)" using assms(1) by (simp add: store_inv_def)
  ultimately have "key \<in> set (map fst (schema s))" by (metis list.set_map)
  then obtain ft where "map_of (schema s) key = Some ft"
    by (metis list.set_map map_of_eq_None_iff not_Some_eq)
  moreover from this assms(1) obtain arr' where "map_of (typedArrayMap s) key = Some arr'" "arrayFor rt (capacity s) ft arr'"
    unfolding store_inv_def by blast
  ultimately show ?thesis using assms(2) by simp
qed

lemma ensureCapacity_inv:
  assumes ok: "rt_ok rt" and inv: "store_inv rt s"
    and al: "\<And>c. \<not> m \<le> capacity s \<Longrightarrow> growLoop (capacity s) m = Some c \<Longrightarrow> allocatesFor rt (schema s) c"
  shows "\<exists>s'. ensureCapacity rt s m = Inr s' \<and> store_inv rt s' \<and> schema s' = schema s \<and>
           size_cs s' = size_cs s \<and> m \<le> capacity s' \<and>
           (\<exists>k. capacity s' = capacity s * 2 ^ k \<and> (\<forall>j. m \<le> capacity s * 2 ^ j \<longrightarrow> k \<le> j)) \<and>
           (\<forall>key arr. map_of (typedArrayMap s) key = Some arr \<longrightarrow>
              (\<exists>arr'. map_of (typedArrayMap s') key = Some arr' \<and>
                 (\<forall>j. j < int (capacity s) \<longrightarrow> taGet arr' j = taGet arr j)))"
proof (cases "m \<le> capacity s")
  case True
  then have "ensureCapacity rt s m = Inr s" by (simp add: ensureCapacity_def)
  moreover have "\<exists>k. capacity s = capacity s * 2 ^ k \<and> (\<forall>j. m \<le> capacity s * 2 ^ j \<longrightarrow> k \<le> j)"
    by (intro exI[of _ 0]) simp
  moreover have "\<forall>key arr. map_of (typedArrayMap s) key = Some arr \<longrightarrow>
              (\<exists>arr'. map_of (typedArrayMap s) key = Some arr' \<and>
                 (\<forall>j. j < int (capacity s) \<longrightarrow> taGet arr' j = taGet arr j))" by simp
  ultimately show ?thesis using inv True by (intro exI[of _ s]) simp
next
  case False
  from inv have cpos: "0 < capacity s" by (simp add: store_inv_def)
  from growLoop_spec[OF cpos, of m] obtain k where
    k: "growLoop (capacity s) m = Some (capacity s * 2 ^ k)" "m \<le> capacity s * 2 ^ k"
       "\<forall>j. m \<le> capacity s * 2 ^ j \<longrightarrow> k \<le> j" by blast
  let ?newCap = "capacity s * 2 ^ k"
  have ge: "capacity s \<le> ?newCap" by simp
  have d: "distinct (map fst (typedArrayMap s))" using inv by (simp add: store_inv_def)
  have p2: "\<forall>(key, arr)\<in>set (typedArrayMap s). \<exists>ft. map_of (schema s) key = Some ft \<and> cls arr = classOf ft"
  proof clarify
    fix key arr assume "(key, arr) \<in> set (typedArrayMap s)"
    with d have "map_of (typedArrayMap s) key = Some arr" by simp
    from store_inv_lookup[OF inv this] show "\<exists>ft. map_of (schema s) key = Some ft \<and> cls arr = classOf ft"
      by (auto simp: arrayFor_def)
  qed
  from al[OF False k(1)] have p4: "\<forall>(k, arr)\<in>set (typedArrayMap s). \<forall>ft. map_of (schema s) k = Some ft \<longrightarrow>
            allocates rt (classOf ft) ?newCap"
    by (simp only: allocatesFor_entries[OF inv])
  from growArrays_Inr[OF d p2 subset_refl p4] obtain s1 where
    s1: "growArrays rt ?newCap (typedArrayMap s) s = Inr s1" "schema s1 = schema s"
        "capacity s1 = capacity s" "size_cs s1 = size_cs s"
        "map fst (typedArrayMap s1) = map fst (typedArrayMap s)"
        "\<And>key. (\<forall>arr. map_of (typedArrayMap s) key = Some arr \<longrightarrow>
                    (\<exists>ft. map_of (schema s) key = Some ft \<and>
                      map_of (typedArrayMap s1) key = Some (copyInto rt (zeroArray (classOf ft) ?newCap) arr))) \<and>
                (map_of (typedArrayMap s) key = None \<longrightarrow> map_of (typedArrayMap s1) key = map_of (typedArrayMap s) key)"
    by blast
  let ?s' = "s1\<lparr>capacity := ?newCap\<rparr>"
  have res: "ensureCapacity rt s m = Inr ?s'"
    using False k(1) s1(1) by (simp add: ensureCapacity_def)
  have arrs: "\<exists>arr'. map_of (typedArrayMap ?s') key = Some arr' \<and> arrayFor rt ?newCap ft arr' \<and>
                (\<forall>j. j < int (capacity s) \<longrightarrow> taGet arr' j = taGet arr j)"
    if a: "map_of (typedArrayMap s) key = Some arr" and f: "map_of (schema s) key = Some ft" for key arr ft
  proof -
    from store_inv_lookup[OF inv a] f have af: "arrayFor rt (capacity s) ft arr" by simp
    then have c: "cls arr = classOf ft" and l: "length (elems arr) = capacity s"
      and v: "list_all (validElem rt (classOf ft)) (elems arr)" by (auto simp: arrayFor_def)
    from s1(6)[of key] a f have m: "map_of (typedArrayMap s1) key = Some (copyInto rt (zeroArray (classOf ft) ?newCap) arr)"
      by auto
    have ci: "copyInto rt (zeroArray (classOf ft) ?newCap) arr =
       \<lparr>cls = classOf ft, elems = elems arr @ replicate (?newCap - capacity s) (zeroOf (classOf ft))\<rparr>"
      using copyInto_same[OF c, of ?newCap rt] l ge by simp
    have "arrayFor rt ?newCap ft (copyInto rt (zeroArray (classOf ft) ?newCap) arr)"
      unfolding ci using v l ge zero_valid[OF ok, of "classOf ft"]
      by (auto simp: arrayFor_def list_all_iff)
    moreover have "\<forall>j. j < int (capacity s) \<longrightarrow> taGet (copyInto rt (zeroArray (classOf ft) ?newCap) arr) j = taGet arr j"
    proof (intro allI impI)
      fix j :: int assume j: "j < int (capacity s)"
      have "int (capacity s) \<le> int ?newCap" using ge by (simp only: of_nat_le_iff)
      with j have "j < int ?newCap" by linarith
      with j l show "taGet (copyInto rt (zeroArray (classOf ft) ?newCap) arr) j = taGet arr j"
        unfolding ci by (auto simp: taGet_def nth_append)
    qed
    ultimately show ?thesis using m by simp
  qed
  have inv': "store_inv rt ?s'"
    unfolding store_inv_def
  proof (intro conjI allI impI)
    show "distinct (map fst (schema ?s'))" using inv s1(2) by (simp add: store_inv_def)
    show "map fst (typedArrayMap ?s') = map fst (schema ?s')" using inv s1 by (simp add: store_inv_def)
    have "size_cs s \<le> capacity s" using inv by (simp add: store_inv_def)
    with ge have "size_cs s \<le> ?newCap" by linarith
    then show "size_cs ?s' \<le> capacity ?s'" using s1(4) by simp
    show "1 \<le> capacity ?s'" using cpos by simp
    fix key ft assume "map_of (schema ?s') key = Some ft"
    then have f: "map_of (schema s) key = Some ft" using s1(2) by simp
    from store_inv_field[OF inv f] obtain arr where "map_of (typedArrayMap s) key = Some arr" by blast
    from arrs[OF this f] show "\<exists>arr. map_of (typedArrayMap ?s') key = Some arr \<and> arrayFor rt (capacity ?s') ft arr"
      by auto
  qed
  have pres: "\<forall>key arr. map_of (typedArrayMap s) key = Some arr \<longrightarrow>
              (\<exists>arr'. map_of (typedArrayMap ?s') key = Some arr' \<and>
                 (\<forall>j. j < int (capacity s) \<longrightarrow> taGet arr' j = taGet arr j))"
  proof (intro allI impI)
    fix key arr assume a: "map_of (typedArrayMap s) key = Some arr"
    from store_inv_lookup[OF inv a] obtain ft where "map_of (schema s) key = Some ft" by blast
    from arrs[OF a this] show "\<exists>arr'. map_of (typedArrayMap ?s') key = Some arr' \<and>
                 (\<forall>j. j < int (capacity s) \<longrightarrow> taGet arr' j = taGet arr j)" by blast
  qed
  have kk: "\<exists>k'. capacity ?s' = capacity s * 2 ^ k' \<and> (\<forall>j. m \<le> capacity s * 2 ^ j \<longrightarrow> k' \<le> j)"
    using k(3) by (intro exI[of _ k]) simp
  have "schema ?s' = schema s" "size_cs ?s' = size_cs s" "m \<le> capacity ?s'"
    using s1(2,4) k(2) by simp_all
  with res inv' pres kk show ?thesis by (intro exI[of _ ?s']) (intro conjI; assumption)
qed

lemma ensureCapacity_fails:
  assumes ok: "rt_ok rt" and inv: "store_inv rt s"
    and nm: "\<not> m \<le> capacity s" and g: "growLoop (capacity s) m = Some c"
    and na: "\<not> allocatesFor rt (schema s) c"
  shows "\<exists>s1. ensureCapacity rt s m = Inl (RangeError, s1) \<and> schema s1 = schema s \<and>
           capacity s1 = capacity s \<and> size_cs s1 = size_cs s \<and>
           map fst (typedArrayMap s1) = map fst (typedArrayMap s) \<and>
           (\<forall>key arr. map_of (typedArrayMap s) key = Some arr \<longrightarrow>
              (\<exists>arr'. map_of (typedArrayMap s1) key = Some arr' \<and>
                 (\<forall>j. j < int (capacity s) \<longrightarrow> taGet arr' j = taGet arr j)))"
proof -
  from inv have cpos: "0 < capacity s" by (simp add: store_inv_def)
  from growLoop_spec[OF cpos, of m] g obtain k where k: "c = capacity s * 2 ^ k" by auto
  then have ge: "capacity s \<le> c" by simp
  have d: "distinct (map fst (typedArrayMap s))" using inv by (simp add: store_inv_def)
  have p2: "\<forall>(key, arr)\<in>set (typedArrayMap s). \<exists>ft. map_of (schema s) key = Some ft \<and> cls arr = classOf ft"
  proof clarify
    fix key arr assume "(key, arr) \<in> set (typedArrayMap s)"
    with d have "map_of (typedArrayMap s) key = Some arr" by simp
    from store_inv_lookup[OF inv this] show "\<exists>ft. map_of (schema s) key = Some ft \<and> cls arr = classOf ft"
      by (auto simp: arrayFor_def)
  qed
  from na have p4: "\<not> (\<forall>(k, arr)\<in>set (typedArrayMap s). \<forall>ft. map_of (schema s) k = Some ft \<longrightarrow>
            allocates rt (classOf ft) c)"
    unfolding allocatesFor_entries[OF inv] .
  from growArrays_Inl[OF d p2 subset_refl p4] obtain s1 where
    s1: "growArrays rt c (typedArrayMap s) s = Inl (RangeError, s1)" "schema s1 = schema s"
        "capacity s1 = capacity s" "size_cs s1 = size_cs s"
        "map fst (typedArrayMap s1) = map fst (typedArrayMap s)"
        "\<And>key. (\<forall>arr. map_of (typedArrayMap s) key = Some arr \<longrightarrow>
                    (\<exists>ft. map_of (schema s) key = Some ft \<and>
                      (map_of (typedArrayMap s1) key = Some (copyInto rt (zeroArray (classOf ft) c) arr) \<or>
                       map_of (typedArrayMap s1) key = map_of (typedArrayMap s) key)))"
    by blast
  have res: "ensureCapacity rt s m = Inl (RangeError, s1)"
    using nm g s1(1) by (simp add: ensureCapacity_def)
  have pres: "\<forall>key arr. map_of (typedArrayMap s) key = Some arr \<longrightarrow>
              (\<exists>arr'. map_of (typedArrayMap s1) key = Some arr' \<and>
                 (\<forall>j. j < int (capacity s) \<longrightarrow> taGet arr' j = taGet arr j))"
  proof (intro allI impI)
    fix key arr assume a: "map_of (typedArrayMap s) key = Some arr"
    from s1(6)[of key] a obtain ft where f: "map_of (schema s) key = Some ft"
      and m: "map_of (typedArrayMap s1) key = Some (copyInto rt (zeroArray (classOf ft) c) arr) \<or>
              map_of (typedArrayMap s1) key = map_of (typedArrayMap s) key" by blast
    from store_inv_lookup[OF inv a] f have af: "arrayFor rt (capacity s) ft arr" by simp
    then have cl: "cls arr = classOf ft" and l: "length (elems arr) = capacity s"
      by (auto simp: arrayFor_def)
    have ci: "copyInto rt (zeroArray (classOf ft) c) arr =
       \<lparr>cls = classOf ft, elems = elems arr @ replicate (c - capacity s) (zeroOf (classOf ft))\<rparr>"
      using copyInto_same[OF cl, of c rt] l ge by simp
    have same: "\<forall>j. j < int (capacity s) \<longrightarrow> taGet (copyInto rt (zeroArray (classOf ft) c) arr) j = taGet arr j"
    proof (intro allI impI)
      fix j :: int assume j: "j < int (capacity s)"
      have "int (capacity s) \<le> int c" using ge by (simp only: of_nat_le_iff)
      with j have "j < int c" by linarith
      with j l show "taGet (copyInto rt (zeroArray (classOf ft) c) arr) j = taGet arr j"
        unfolding ci by (auto simp: taGet_def nth_append)
    qed
    from m show "\<exists>arr'. map_of (typedArrayMap s1) key = Some arr' \<and>
                 (\<forall>j. j < int (capacity s) \<longrightarrow> taGet arr' j = taGet arr j)"
    proof
      assume "map_of (typedArrayMap s1) key = Some (copyInto rt (zeroArray (classOf ft) c) arr)"
      with same show ?thesis by blast
    next
      assume "map_of (typedArrayMap s1) key = map_of (typedArrayMap s) key"
      with a show ?thesis by simp
    qed
  qed
  from res s1(2-5) pres show ?thesis by (intro exI[of _ s1] conjI)
qed

lemma getFields_cong:
  assumes "schema s' = schema s"
    "\<forall>key\<in>set keys. (map_of (typedArrayMap s') key = None \<longleftrightarrow> map_of (typedArrayMap s) key = None) \<and>
       (\<forall>arr arr'. map_of (typedArrayMap s) key = Some arr \<longrightarrow> map_of (typedArrayMap s') key = Some arr' \<longrightarrow>
          readRow s' arr' i = readRow s arr i)"
  shows "getFields s' i keys = getFields s i keys"
  using assms(2)
proof (induction keys)
  case Nil
  then show ?case by simp
next
  case (Cons key keys)
  then have IH: "getFields s' i keys = getFields s i keys" by simp
  from Cons.prems have k: "(map_of (typedArrayMap s') key = None \<longleftrightarrow> map_of (typedArrayMap s) key = None)"
    and r: "\<And>arr arr'. map_of (typedArrayMap s) key = Some arr \<Longrightarrow> map_of (typedArrayMap s') key = Some arr' \<Longrightarrow>
          readRow s' arr' i = readRow s arr i" by auto
  show ?case
  proof (cases "map_of (typedArrayMap s) key")
    case None
    with k show ?thesis by simp
  next
    case (Some arr)
    with k obtain arr' where a': "map_of (typedArrayMap s') key = Some arr'" by auto
    from r[OF Some a'] Some a' IH assms(1) show ?thesis by (simp cong: option.case_cong sum.case_cong)
  qed
qed

lemma getProp_Cons: "getProp ((key, x) # out) k = (if k = key then x else getProp out k)"
  by (simp add: getProp_def)

lemma getFields_Inr:
  assumes "\<forall>key\<in>set keys. \<exists>arr ft. map_of (typedArrayMap s) key = Some arr \<and> map_of (schema s) key = Some ft \<and>
             decode ft (readRow s arr i) = Inr (f key)"
  shows "getFields s i keys = Inr (map (\<lambda>key. (key, f key)) keys)"
  using assms
proof (induction keys)
  case Nil
  then show ?case by simp
next
  case (Cons key keys)
  then have IH: "getFields s i keys = Inr (map (\<lambda>key. (key, f key)) keys)" by simp
  from Cons.prems obtain arr ft where "map_of (typedArrayMap s) key = Some arr" "map_of (schema s) key = Some ft"
             "decode ft (readRow s arr i) = Inr (f key)"
    by auto
  with IH show ?case by simp
qed

lemma getProp_map: "getProp (map (\<lambda>key. (key, f key)) keys) k = (if k \<in> set keys then f k else VUndefined)"
  by (induction keys) (auto simp: getProp_def)

lemma setField_Inr:
  assumes "setField rt index v key arr = Inr arr'"
  shows "\<exists>raw c. coerce rt (getProp v key) = Inr raw \<and> convertElement rt (cls arr) raw = Inr c \<and>
           taSet rt arr index raw = Inr arr' \<and> cls arr' = cls arr \<and>
           length (elems arr') = length (elems arr) \<and>
           (\<forall>j. taGet arr' j = (if j = index \<and> 0 \<le> index \<and> index < int (length (elems arr)) then c else taGet arr j))"
proof -
  from assms obtain raw where raw: "coerce rt (getProp v key) = Inr raw" "taSet rt arr index raw = Inr arr'"
    by (auto simp: setField_def split: sum.splits)
  from taSet_Inr[OF raw(2)] raw show ?thesis by blast
qed

text \<open>A body that writes one element of the array keeps the invariant of the store.\<close>

lemma forEachField_inv:
  assumes ok: "rt_ok rt" and inv: "store_inv rt s"
    and run: "forEachField body (map fst (schema s)) s = Inr s'"
    and body: "\<And>key arr arr'. body key arr = Inr arr' \<Longrightarrow> \<exists>i v. taSet rt arr i v = Inr arr'"
  shows "store_inv rt s'"
proof -
  from inv have d: "distinct (map fst (schema s))" by (simp add: store_inv_def)
  note R = forEachField_Inr[OF run d]
  have f: "\<exists>arr. map_of (typedArrayMap s') key = Some arr \<and> arrayFor rt (capacity s') ft arr"
    if ft: "map_of (schema s') key = Some ft" for key ft
  proof -
    from ft R have ft0: "map_of (schema s) key = Some ft" by simp
    then have kin: "key \<in> set (map fst (schema s))" by (metis list.set_map map_of_eq_None_iff option.distinct(1))
    from store_inv_field[OF inv ft0] obtain arr where arr: "map_of (typedArrayMap s) key = Some arr"
      "arrayFor rt (capacity s) ft arr" by blast
    from R kin arr(1) obtain arr' where a': "body key arr = Inr arr'" "map_of (typedArrayMap s') key = Some arr'"
      by (metis option.inject)
    from body[OF a'(1)] obtain i v where t: "taSet rt arr i v = Inr arr'" by blast
    from taSet_Inr[OF t] have c: "cls arr' = cls arr" "length (elems arr') = length (elems arr)" by auto
    from arr(2) have "list_all (validElem rt (cls arr)) (elems arr)" by (auto simp: arrayFor_def)
    from taSet_valid[OF ok t this] c arr(2) a'(2) R show ?thesis by (auto simp: arrayFor_def)
  qed
  from R inv have "distinct (map fst (schema s'))" "map fst (typedArrayMap s') = map fst (schema s')"
    "size_cs s' \<le> capacity s'" "1 \<le> capacity s'" by (simp_all add: store_inv_def)
  with f show ?thesis unfolding store_inv_def by blast
qed

lemma grows_unfold:
  assumes i0: "0 \<le> index"
  shows "grows rt s (nat index) \<longleftrightarrow>
           index < int (capacity s) \<or>
           (\<exists>c. growLoop (capacity s) (nat (index + 1)) = Some c \<and> allocatesFor rt (schema s) c)"
proof -
  from i0 have "nat index + 1 = nat (index + 1)" by simp
  moreover from i0 have "nat index < capacity s \<longleftrightarrow> index < int (capacity s)" by linarith
  ultimately show ?thesis by (simp add: grows_def split: option.splits)
qed

lemma grow_step_fails:
  assumes ok: "rt_ok rt" and inv: "store_inv rt s" and i0: "0 \<le> index"
    and ng: "\<not> grows rt s (nat index)"
  shows "\<exists>s1. (if int (capacity s) \<le> index then ensureCapacity rt s (nat (index + 1)) else Inr s) =
                Inl (RangeError, s1) \<and>
           int (capacity s) \<le> index \<and>
           schema s1 = schema s \<and> capacity s1 = capacity s \<and> size_cs s1 = size_cs s \<and>
           map fst (typedArrayMap s1) = map fst (typedArrayMap s) \<and>
           (\<forall>key arr. map_of (typedArrayMap s) key = Some arr \<longrightarrow>
              (\<exists>arr'. map_of (typedArrayMap s1) key = Some arr' \<and>
                 (\<forall>j. j < int (capacity s) \<longrightarrow> taGet arr' j = taGet arr j)))"
proof -
  from ng grows_unfold[OF i0, of rt s] have big: "int (capacity s) \<le> index"
    and na: "\<And>c. growLoop (capacity s) (nat (index + 1)) = Some c \<Longrightarrow> \<not> allocatesFor rt (schema s) c"
    by auto
  from inv have cpos: "0 < capacity s" by (simp add: store_inv_def)
  from growLoop_spec[OF cpos, of "nat (index + 1)"] obtain c where
    c: "growLoop (capacity s) (nat (index + 1)) = Some c" by blast
  from big i0 have nm: "\<not> nat (index + 1) \<le> capacity s" by linarith
  from ensureCapacity_fails[OF ok inv nm c na[OF c]] big show ?thesis by simp
qed

lemma grow_step:
  assumes ok: "rt_ok rt" and inv: "store_inv rt s" and i0: "0 \<le> index"
    and gr: "grows rt s (nat index)"
  shows "\<exists>s1. (if int (capacity s) \<le> index then ensureCapacity rt s (nat (index + 1)) else Inr s) = Inr s1 \<and>
           store_inv rt s1 \<and> schema s1 = schema s \<and> size_cs s1 = size_cs s \<and> index < int (capacity s1) \<and>
           (\<exists>k. capacity s1 = capacity s * 2 ^ k \<and> (\<forall>j. index < int (capacity s * 2 ^ j) \<longrightarrow> k \<le> j)) \<and>
           (\<forall>key arr. map_of (typedArrayMap s) key = Some arr \<longrightarrow>
              (\<exists>arr'. map_of (typedArrayMap s1) key = Some arr' \<and>
                 (\<forall>j. j < int (capacity s) \<longrightarrow> taGet arr' j = taGet arr j)))"
proof (cases "int (capacity s) \<le> index")
  case True
  have al: "allocatesFor rt (schema s) c"
    if "\<not> nat (index + 1) \<le> capacity s" "growLoop (capacity s) (nat (index + 1)) = Some c" for c
    using gr True that(2) by (auto simp: grows_unfold[OF i0])
  from ensureCapacity_inv[OF ok inv al, of "nat (index + 1)"] obtain s1 k where
    s1: "ensureCapacity rt s (nat (index + 1)) = Inr s1" "store_inv rt s1" "schema s1 = schema s"
        "size_cs s1 = size_cs s" "nat (index + 1) \<le> capacity s1"
        "capacity s1 = capacity s * 2 ^ k" "\<forall>j. nat (index + 1) \<le> capacity s * 2 ^ j \<longrightarrow> k \<le> j"
        "\<forall>key arr. map_of (typedArrayMap s) key = Some arr \<longrightarrow>
              (\<exists>arr'. map_of (typedArrayMap s1) key = Some arr' \<and>
                 (\<forall>j. j < int (capacity s) \<longrightarrow> taGet arr' j = taGet arr j))"
    by blast
  from s1(5) i0 have lt: "index < int (capacity s1)" by linarith
  have mn: "\<forall>j. index < int (capacity s * 2 ^ j) \<longrightarrow> k \<le> j"
  proof (intro allI impI)
    fix j assume "index < int (capacity s * 2 ^ j)"
    with i0 have "nat (index + 1) \<le> capacity s * 2 ^ j" by linarith
    with s1(7) show "k \<le> j" by blast
  qed
  from s1(6) mn have "\<exists>k. capacity s1 = capacity s * 2 ^ k \<and> (\<forall>j. index < int (capacity s * 2 ^ j) \<longrightarrow> k \<le> j)"
    by blast
  with True s1(1-4,8) lt show ?thesis by (intro exI[of _ s1]) simp
next
  case False
  have "\<exists>k. capacity s = capacity s * 2 ^ k \<and> (\<forall>j. index < int (capacity s * 2 ^ j) \<longrightarrow> k \<le> j)"
    by (intro exI[of _ 0]) simp
  with False inv show ?thesis by (intro exI[of _ s]) simp
qed

lemma grow_step_Inr:
  assumes ok: "rt_ok rt" and inv: "store_inv rt s" and i0: "0 \<le> index"
    and run: "(if int (capacity s) \<le> index then ensureCapacity rt s (nat (index + 1)) else Inr s) = Inr s1"
  shows "grows rt s (nat index)"
proof (rule ccontr)
  assume "\<not> grows rt s (nat index)"
  from grow_step_fails[OF ok inv i0 this] run show False by auto
qed

lemma set_cs_grows:
  assumes ok: "rt_ok rt" and inv: "store_inv rt s" and i0: "0 \<le> index"
    and run: "set_cs rt s index v = Inr s'"
  shows "grows rt s (nat index)"
proof -
  from run i0 have "\<exists>s0. (if int (capacity s) \<le> index then ensureCapacity rt s (nat (index + 1)) else Inr s) = Inr s0"
    by (cases "(if int (capacity s) \<le> index then ensureCapacity rt s (nat (index + 1)) else Inr s)")
       (simp_all add: set_cs_def)
  then obtain s0 where
    "(if int (capacity s) \<le> index then ensureCapacity rt s (nat (index + 1)) else Inr s) = Inr s0" by blast
  from grow_step_Inr[OF ok inv i0 this] show ?thesis .
qed

lemma set_cs_Inr:
  assumes ok: "rt_ok rt" and inv: "store_inv rt s" and i0: "0 \<le> index"
    and run: "set_cs rt s index v = Inr s'"
  shows "store_inv rt s' \<and> schema s' = schema s \<and> size_cs s' = max (size_cs s) (nat (index + 1)) \<and>
         index < int (capacity s') \<and>
         (\<exists>k. capacity s' = capacity s * 2 ^ k \<and> (\<forall>j. index < int (capacity s * 2 ^ j) \<longrightarrow> k \<le> j)) \<and>
         (\<forall>key ft. map_of (schema s) key = Some ft \<longrightarrow>
            (\<exists>arr arr' raw c. map_of (typedArrayMap s) key = Some arr \<and>
               map_of (typedArrayMap s') key = Some arr' \<and>
               coerce rt (getProp v key) = Inr raw \<and> convertElement rt (classOf ft) raw = Inr c \<and>
               taGet arr' index = c \<and>
               (\<forall>j. j \<noteq> index \<longrightarrow> j < int (capacity s) \<longrightarrow> taGet arr' j = taGet arr j)))"
proof -
  note gr = set_cs_grows[OF ok inv i0 run]
  from grow_step[OF ok inv i0 gr] obtain s1 where
    g: "(if int (capacity s) \<le> index then ensureCapacity rt s (nat (index + 1)) else Inr s) = Inr s1"
    and inv1: "store_inv rt s1" and sch1: "schema s1 = schema s" and sz1: "size_cs s1 = size_cs s"
    and lt1: "index < int (capacity s1)"
    and cap1: "\<exists>k. capacity s1 = capacity s * 2 ^ k \<and> (\<forall>j. index < int (capacity s * 2 ^ j) \<longrightarrow> k \<le> j)"
    and pres1: "\<forall>key arr. map_of (typedArrayMap s) key = Some arr \<longrightarrow>
              (\<exists>arr'. map_of (typedArrayMap s1) key = Some arr' \<and>
                 (\<forall>j. j < int (capacity s) \<longrightarrow> taGet arr' j = taGet arr j))"
    by blast
  from run i0 g obtain s2 where
    loop: "forEachField (setField rt index v) (map fst (schema s1)) s1 = Inr s2"
    and s': "s' = (if int (size_cs s2) \<le> index then s2\<lparr>size_cs := nat (index + 1)\<rparr> else s2)"
    by (auto simp: set_cs_def split: sum.splits)
  from inv1 have d: "distinct (map fst (schema s1))" by (simp add: store_inv_def)
  note R = forEachField_Inr[OF loop d]
  have inv2: "store_inv rt s2"
  proof (rule forEachField_inv[OF ok inv1 loop])
    fix key arr arr' assume "setField rt index v key arr = Inr arr'"
    from setField_Inr[OF this] show "\<exists>i v. taSet rt arr i v = Inr arr'" by blast
  qed
  have sz2: "size_cs s2 = size_cs s" and cap2: "capacity s2 = capacity s1" and sch2: "schema s2 = schema s"
    using R sz1 sch1 by simp_all
  have inv': "store_inv rt s'"
    using inv2 lt1 cap2 i0 unfolding s' store_inv_def by auto
  have size': "size_cs s' = max (size_cs s) (nat (index + 1))"
    using sz2 i0 unfolding s' by auto
  have fields: "\<exists>arr arr' raw c. map_of (typedArrayMap s) key = Some arr \<and>
               map_of (typedArrayMap s') key = Some arr' \<and>
               coerce rt (getProp v key) = Inr raw \<and> convertElement rt (classOf ft) raw = Inr c \<and>
               taGet arr' index = c \<and>
               (\<forall>j. j \<noteq> index \<longrightarrow> j < int (capacity s) \<longrightarrow> taGet arr' j = taGet arr j)"
    if ft: "map_of (schema s) key = Some ft" for key ft
  proof -
    from store_inv_field[OF inv ft] obtain arr where arr: "map_of (typedArrayMap s) key = Some arr" by blast
    from pres1 arr obtain arr1 where arr1: "map_of (typedArrayMap s1) key = Some arr1"
      "\<forall>j. j < int (capacity s) \<longrightarrow> taGet arr1 j = taGet arr j" by blast
    from ft sch1 have ft1: "map_of (schema s1) key = Some ft" by simp
    from store_inv_field[OF inv1 ft1] arr1(1) have af: "arrayFor rt (capacity s1) ft arr1" by simp
    from ft1 have kin: "key \<in> set (map fst (schema s1))"
      by (metis list.set_map map_of_eq_None_iff option.distinct(1))
    from R kin arr1(1) obtain arr2 where arr2: "setField rt index v key arr1 = Inr arr2"
      "map_of (typedArrayMap s2) key = Some arr2" by (metis option.inject)
    from setField_Inr[OF arr2(1)] obtain raw c where rc: "coerce rt (getProp v key) = Inr raw"
      "convertElement rt (cls arr1) raw = Inr c"
      "\<forall>j. taGet arr2 j = (if j = index \<and> 0 \<le> index \<and> index < int (length (elems arr1)) then c else taGet arr1 j)"
      by blast
    from af have c1: "cls arr1 = classOf ft" and l1: "length (elems arr1) = capacity s1"
      by (auto simp: arrayFor_def)
    from rc(3) l1 lt1 i0 have at: "taGet arr2 index = c" by simp
    from rc(3) arr1(2) have oth: "\<forall>j. j \<noteq> index \<longrightarrow> j < int (capacity s) \<longrightarrow> taGet arr2 j = taGet arr j"
      by simp
    have "map_of (typedArrayMap s') key = Some arr2" using arr2(2) unfolding s' by simp
    with arr rc(1,2) c1 at oth show ?thesis by auto
  qed
  have sch': "schema s' = schema s" using sch2 unfolding s' by simp
  have cap': "capacity s' = capacity s1" using cap2 unfolding s' by simp
  from inv' sch' size' lt1 cap1 cap' fields show ?thesis by simp
qed

lemma set_cs_succeeds:
  assumes ok: "rt_ok rt" and inv: "store_inv rt s" and i0: "0 \<le> index"
    and st: "storable rt (schema s) v" and gr: "grows rt s (nat index)"
  shows "\<exists>s'. set_cs rt s index v = Inr s'"
proof -
  from grow_step[OF ok inv i0 gr] obtain s1 where
    g: "(if int (capacity s) \<le> index then ensureCapacity rt s (nat (index + 1)) else Inr s) = Inr s1"
    and inv1: "store_inv rt s1" and sch1: "schema s1 = schema s"
    by blast
  from inv1 have d: "distinct (map fst (schema s1))" by (simp add: store_inv_def)
  have "\<forall>k\<in>set (map fst (schema s1)). \<exists>arr arr'. map_of (typedArrayMap s1) k = Some arr \<and>
          setField rt index v k arr = Inr arr'"
  proof
    fix k assume "k \<in> set (map fst (schema s1))"
    then obtain ft where ft: "map_of (schema s1) k = Some ft"
      by (metis list.set_map map_of_eq_None_iff not_Some_eq)
    from store_inv_field[OF inv1 ft] obtain arr where arr: "map_of (typedArrayMap s1) k = Some arr"
      "arrayFor rt (capacity s1) ft arr" by blast
    from st ft sch1 obtain raw c where rc: "coerce rt (getProp v k) = Inr raw"
      "convertElement rt (classOf ft) raw = Inr c" unfolding storable_def by metis
    from arr(2) have "cls arr = classOf ft" by (auto simp: arrayFor_def)
    with rc have "\<exists>arr'. setField rt index v k arr = Inr arr'"
      by (simp add: setField_def taSet_def)
    with arr(1) show "\<exists>arr arr'. map_of (typedArrayMap s1) k = Some arr \<and> setField rt index v k arr = Inr arr'"
      by blast
  qed
  from forEachField_succeeds[OF d this] obtain s2 where
    "forEachField (setField rt index v) (map fst (schema s1)) s1 = Inr s2" by blast
  with g i0 show ?thesis by (simp add: set_cs_def)
qed

lemma set_cs_storable:
  assumes ok: "rt_ok rt" and inv: "store_inv rt s" and i0: "0 \<le> index"
    and run: "set_cs rt s index v = Inr s'"
  shows "storable rt (schema s) v"
  using set_cs_Inr[OF ok inv i0 run] unfolding storable_def by blast

lemma get_cs_unchanged:
  assumes ok: "rt_ok rt" and inv: "store_inv rt s" and i0: "0 \<le> index"
    and run: "set_cs rt s index v = Inr s'"
    and j: "j \<noteq> index" "j < int (size_cs s)"
  shows "get_cs s' j = get_cs s j"
proof -
  note S = set_cs_Inr[OF ok inv i0 run]
  from S have sch: "schema s' = schema s" and sz: "size_cs s' = max (size_cs s) (nat (index + 1))" by simp_all
  from inv have szc: "size_cs s \<le> capacity s" by (simp add: store_inv_def)
  have "getFields s' j (map fst (schema s)) = getFields s j (map fst (schema s))"
  proof (rule getFields_cong[OF sch], intro ballI conjI allI impI)
    fix key assume "key \<in> set (map fst (schema s))"
    then obtain ft where ft: "map_of (schema s) key = Some ft"
      by (metis list.set_map map_of_eq_None_iff not_Some_eq)
    from S ft obtain arr arr' where a: "map_of (typedArrayMap s) key = Some arr"
      "map_of (typedArrayMap s') key = Some arr'"
      "\<forall>j. j \<noteq> index \<longrightarrow> j < int (capacity s) \<longrightarrow> taGet arr' j = taGet arr j" by metis
    show "(map_of (typedArrayMap s') key = None) = (map_of (typedArrayMap s) key = None)"
      using a by simp
    fix b b' assume "map_of (typedArrayMap s) key = Some b" "map_of (typedArrayMap s') key = Some b'"
    with a have "b = arr" "b' = arr'" by simp_all
    moreover have "taGet arr' j = taGet arr j" using a(3) j szc by auto
    moreover have "j < int (size_cs s')" using j(2) sz by linarith
    ultimately show "readRow s' b' j = readRow s b j" using j by (simp add: readRow_def)
  qed
  then show ?thesis using sch by (simp add: get_cs_def)
qed

lemma decode_converted:
  assumes "convertElement rt (classOf ft) raw = Inr c"
  shows "\<exists>x. decode ft c = Inr x"
  using assms
  by (cases ft; cases raw)
     (auto simp: decode_def convertElement_def classOf_def isBigClass_def toBigInt_def split: if_splits)



lemma testRuntime_ok: "rt_ok testRuntime"
  by (simp add: rt_ok_def testRuntime_def)

lemma compStore_inv: "store_inv testRuntime compStore"
  unfolding store_inv_def compStore_def compSchema_def
  by (simp add: arrayFor_def validElem_def convertElement_def isBigClass_def classOf_def
      testRuntime_def toIntegral_def truncq_def wrapS_def wrapU_def)

lemma compValue_storable: "storable testRuntime compSchema compValue"
  unfolding storable_def compSchema_def compValue_def
  by (simp add: getProp_def coerce_def convertElement_def isBigClass_def classOf_def)

lemma get_after_set:
  assumes ok: "rt_ok rt" and inv: "store_inv rt s" and i0: "0 \<le> index"
    and run: "set_cs rt s index v = Inr s'"
  shows "\<exists>out. get_cs s' index = Inr out \<and> map fst out = map fst (schema s) \<and>
           (\<forall>key ft. map_of (schema s) key = Some ft \<longrightarrow>
              (\<exists>raw c. coerce rt (getProp v key) = Inr raw \<and>
                 convertElement rt (classOf ft) raw = Inr c \<and> decode ft c = Inr (getProp out key)))"
proof -
  note S = set_cs_Inr[OF ok inv i0 run]
  from S have sch: "schema s' = schema s" and sz: "size_cs s' = max (size_cs s) (nat (index + 1))" by simp_all
  from sz i0 have lt: "index < int (size_cs s')" by linarith
  define f where "f key = (case map_of (schema s) key of
       Some ft \<Rightarrow> (case coerce rt (getProp v key) of
          Inr raw \<Rightarrow> (case convertElement rt (classOf ft) raw of
             Inr c \<Rightarrow> (case decode ft c of Inr x \<Rightarrow> x | Inl e \<Rightarrow> VUndefined) | Inl e \<Rightarrow> VUndefined)
          | Inl e \<Rightarrow> VUndefined)
     | None \<Rightarrow> VUndefined)" for key
  have field: "\<exists>arr' raw c. map_of (typedArrayMap s') key = Some arr' \<and> coerce rt (getProp v key) = Inr raw \<and>
                 convertElement rt (classOf ft) raw = Inr c \<and> readRow s' arr' index = c \<and> decode ft c = Inr (f key)"
    if ft: "map_of (schema s) key = Some ft" for key ft
  proof -
    from S ft obtain arr' raw c where a: "map_of (typedArrayMap s') key = Some arr'"
      "coerce rt (getProp v key) = Inr raw" "convertElement rt (classOf ft) raw = Inr c" "taGet arr' index = c"
      by metis
    from decode_converted[OF a(3)] obtain x where x: "decode ft c = Inr x" by blast
    with ft a(2,3) have "f key = x" by (simp add: f_def)
    with a x lt show ?thesis by (simp add: readRow_def)
  qed
  have "getFields s' index (map fst (schema s)) = Inr (map (\<lambda>key. (key, f key)) (map fst (schema s)))"
  proof (rule getFields_Inr, intro ballI)
    fix key assume "key \<in> set (map fst (schema s))"
    then obtain ft where ft: "map_of (schema s) key = Some ft"
      by (metis list.set_map map_of_eq_None_iff not_Some_eq)
    from field[OF ft] ft sch
    show "\<exists>arr ft. map_of (typedArrayMap s') key = Some arr \<and> map_of (schema s') key = Some ft \<and>
             decode ft (readRow s' arr index) = Inr (f key)" by auto
  qed
  then have g: "get_cs s' index = Inr (map (\<lambda>key. (key, f key)) (map fst (schema s)))"
    using sch by (simp add: get_cs_def)
  have "\<exists>raw c. coerce rt (getProp v key) = Inr raw \<and>
                 convertElement rt (classOf ft) raw = Inr c \<and>
                 decode ft c = Inr (getProp (map (\<lambda>key. (key, f key)) (map fst (schema s))) key)"
    if ft: "map_of (schema s) key = Some ft" for key ft
  proof -
    from ft have "key \<in> set (map fst (schema s))"
      by (metis list.set_map map_of_eq_None_iff option.distinct(1))
    then have "getProp (map (\<lambda>key. (key, f key)) (map fst (schema s))) key = f key"
      by (simp only: getProp_map if_True)
    with field[OF ft] show ?thesis by auto
  qed
  with g show ?thesis by (intro exI[of _ "map (\<lambda>key. (key, f key)) (map fst (schema s))"]) (simp add: comp_def)
qed




lemma update_fresh: "k \<notin> fst ` set al \<Longrightarrow> AList.update k v al = al @ [(k, v)]"
  by (induction al) auto

lemma foldl_update_fresh:
  assumes "distinct (map fst sch)" "fst ` set sch \<inter> fst ` set acc = {}"
  shows "foldl (\<lambda>m (key, t). AList.update key (f t) m) acc sch = acc @ map (\<lambda>(key, t). (key, f t)) sch"
  using assms
proof (induction sch arbitrary: acc)
  case Nil
  then show ?case by simp
next
  case (Cons p sch)
  obtain k t where p: "p = (k, t)" by (cases p)
  from Cons.prems p have fresh: "k \<notin> fst ` set acc" by auto
  from Cons.prems p have d: "distinct (map fst sch)" and nk: "k \<notin> fst ` set sch" by auto
  have dis: "fst ` set sch \<inter> fst ` set (acc @ [(k, f t)]) = {}"
    using Cons.prems(2) nk p by auto
  show ?case
    using Cons.IH[OF d dis] p by (simp add: update_fresh[OF fresh])
qed

lemma createArrays_cases:
  "createArrays rt cap sch m =
     (if allocatesFor rt sch cap
      then Inr (foldl (\<lambda>m (key, t). AList.update key (zeroArray (classOf t) cap) m) m sch)
      else Inl RangeError)"
proof (induction sch arbitrary: m)
  case Nil
  then show ?case by (simp add: allocatesFor_def)
next
  case (Cons p sch)
  obtain key t where p: "p = (key, t)" by (cases p)
  show ?case
    unfolding p using Cons.IH by (simp add: allocatesFor_def createArrayForType_cases)
qed

lemma newColumnStore_cases:
  "newColumnStore rt sch n =
     (if allocatesFor rt sch (max n 1)
      then Inr \<lparr>schema = sch,
                typedArrayMap =
                  foldl (\<lambda>m (key, t). AList.update key (zeroArray (classOf t) (max n 1)) m) [] sch,
                capacity = max n 1, size_cs = 0\<rparr>
      else Inl RangeError)"
  by (simp add: newColumnStore_def createArrays_cases Let_def)

lemma newColumnStore_arrays:
  assumes "distinct (map fst sch)" and "newColumnStore rt sch n = Inr s"
  shows "typedArrayMap s = map (\<lambda>(key, t). (key, zeroArray (classOf t) (max n 1))) sch"
  using foldl_update_fresh[OF assms(1), of "[]" "\<lambda>t. zeroArray (classOf t) (max n 1)"] assms(2)
  by (auto simp: newColumnStore_cases split: if_splits)

lemma newColumnStore_fields:
  assumes "newColumnStore rt sch n = Inr s"
  shows "schema s = sch" "capacity s = max n 1" "size_cs s = 0" "allocatesFor rt sch (max n 1)"
  using assms by (auto simp: newColumnStore_cases split: if_splits)

lemma newColumnStore_ok:
  assumes "allocatesFor rt sch (max n 1)"
  shows "\<exists>s. newColumnStore rt sch n = Inr s"
  using assms by (simp add: newColumnStore_cases)

lemma map_of_map_snd:
  "map_of (map (\<lambda>(key, t). (key, f t)) sch) key = map_option f (map_of sch key)"
  by (induction sch) auto

lemma newColumnStore_inv:
  assumes ok: "rt_ok rt" and d: "distinct (map fst sch)" and run: "newColumnStore rt sch n = Inr s"
  shows "store_inv rt s"
proof -
  have a: "typedArrayMap s = map (\<lambda>(key, t). (key, zeroArray (classOf t) (max n 1))) sch"
    by (rule newColumnStore_arrays[OF d run])
  note f = newColumnStore_fields[OF run]
  have keys: "map fst (typedArrayMap s) = map fst sch"
    unfolding a by (induction sch) auto
  have "arrayFor rt (max n 1) ft (zeroArray (classOf ft) (max n 1))" for ft
    using zero_valid[OF ok, of "classOf ft"]
    by (simp add: arrayFor_def zeroArray_def list_all_iff)
  then have "\<forall>key ft. map_of sch key = Some ft \<longrightarrow>
        (\<exists>arr. map_of (typedArrayMap s) key = Some arr \<and> arrayFor rt (max n 1) ft arr)"
    unfolding a by (simp add: map_of_map_snd)
  with d keys f(1,2,3) show ?thesis unfolding store_inv_def by simp
qed






lemma schema_key_cases:
  "key \<in> set (map fst sch) \<Longrightarrow> \<exists>ft. map_of sch key = Some ft"
  by (metis list.set_map map_of_eq_None_iff not_Some_eq)

lemma get_cs_grow:
  assumes inv: "store_inv rt s" and sch: "schema s1 = schema s" and sz: "size_cs s1 = size_cs s"
    and pres: "\<forall>key arr. map_of (typedArrayMap s) key = Some arr \<longrightarrow>
              (\<exists>arr'. map_of (typedArrayMap s1) key = Some arr' \<and>
                 (\<forall>j. j < int (capacity s) \<longrightarrow> taGet arr' j = taGet arr j))"
  shows "get_cs s1 j = get_cs s j"
proof -
  from inv have szc: "size_cs s \<le> capacity s" by (simp add: store_inv_def)
  have "getFields s1 j (map fst (schema s)) = getFields s j (map fst (schema s))"
  proof (rule getFields_cong[OF sch], intro ballI conjI allI impI)
    fix key assume "key \<in> set (map fst (schema s))"
    from schema_key_cases[OF this] obtain ft where ft: "map_of (schema s) key = Some ft" by blast
    from store_inv_field[OF inv ft] obtain arr where arr: "map_of (typedArrayMap s) key = Some arr" by blast
    with pres obtain arr' where a': "map_of (typedArrayMap s1) key = Some arr'"
      "\<forall>j. j < int (capacity s) \<longrightarrow> taGet arr' j = taGet arr j" by blast
    show "(map_of (typedArrayMap s1) key = None) = (map_of (typedArrayMap s) key = None)"
      using arr a' by simp
    fix b b' assume "map_of (typedArrayMap s) key = Some b" "map_of (typedArrayMap s1) key = Some b'"
    with arr a' have e: "b = arr" "b' = arr'" by simp_all
    show "readRow s1 b' j = readRow s b j"
    proof (cases "j < int (size_cs s)")
      case True
      with szc have "j < int (capacity s)" by linarith
      with a'(2) True e sz show ?thesis by (simp add: readRow_def)
    next
      case False
      with sz show ?thesis by (simp add: readRow_def)
    qed
  qed
  then show ?thesis using sch by (simp add: get_cs_def)
qed

lemma taGet_valid:
  assumes "arrayFor rt cap ft arr" "0 \<le> i" "i < int cap"
  shows "convertElement rt (classOf ft) (taGet arr i) = Inr (taGet arr i)"
proof -
  from assms have "nat i < length (elems arr)" by (auto simp: arrayFor_def)
  then have "elems arr ! nat i \<in> set (elems arr)" by simp
  with assms show ?thesis by (auto simp: arrayFor_def taGet_def list_all_iff validElem_def)
qed

lemma copyFrom_cases:
  assumes ok: "rt_ok rt" and inv: "store_inv rt s" and invo: "store_inv rt other"
    and sch: "schema other = schema s" and i0: "0 \<le> indexTarget"
  shows "\<exists>s1. size_cs s1 = size_cs s \<and> (\<forall>j. get_cs s1 j = get_cs s j) \<and>
           (if \<not> grows rt s (nat indexTarget)
            then capacity s1 = capacity s \<and> int (capacity s) \<le> indexTarget \<and>
                 copyFrom rt s indexTarget other indexSrc = Inl (RangeError, s1)
            else indexTarget < int (capacity s1) \<and>
                 (\<exists>k. capacity s1 = capacity s * 2 ^ k \<and>
                      (\<forall>j. indexTarget < int (capacity s * 2 ^ j) \<longrightarrow> k \<le> j)) \<and>
                 (if indexSrc < 0 \<or> int (size_cs other) \<le> indexSrc
                  then copyFrom rt s indexTarget other indexSrc = Inl (RangeError, s1)
                  else (\<exists>s'. copyFrom rt s indexTarget other indexSrc = Inr s')))"
proof (cases "grows rt s (nat indexTarget)")
  case False
  from grow_step_fails[OF ok inv i0 False] obtain s1 where
    g: "(if int (capacity s) \<le> indexTarget then ensureCapacity rt s (nat (indexTarget + 1)) else Inr s) =
          Inl (RangeError, s1)"
    and big: "int (capacity s) \<le> indexTarget"
    and sch1: "schema s1 = schema s" and cap1: "capacity s1 = capacity s" and sz1: "size_cs s1 = size_cs s"
    and pres1: "\<forall>key arr. map_of (typedArrayMap s) key = Some arr \<longrightarrow>
              (\<exists>arr'. map_of (typedArrayMap s1) key = Some arr' \<and>
                 (\<forall>j. j < int (capacity s) \<longrightarrow> taGet arr' j = taGet arr j))"
    by blast
  have gets: "\<forall>j. get_cs s1 j = get_cs s j"
    using get_cs_grow[OF inv sch1 sz1 pres1] by blast
  from g have "copyFrom rt s indexTarget other indexSrc = Inl (RangeError, s1)"
    by (simp add: copyFrom_def)
  with False sz1 gets cap1 big show ?thesis by (intro exI[of _ s1]) simp
next
  case gr: True
  from grow_step[OF ok inv i0 gr] obtain s1 where
    g: "(if int (capacity s) \<le> indexTarget then ensureCapacity rt s (nat (indexTarget + 1)) else Inr s) = Inr s1"
    and inv1: "store_inv rt s1" and sch1: "schema s1 = schema s" and sz1: "size_cs s1 = size_cs s"
    and lt1: "indexTarget < int (capacity s1)"
    and capk: "\<exists>k. capacity s1 = capacity s * 2 ^ k \<and>
                  (\<forall>j. indexTarget < int (capacity s * 2 ^ j) \<longrightarrow> k \<le> j)"
    and pres1: "\<forall>key arr. map_of (typedArrayMap s) key = Some arr \<longrightarrow>
              (\<exists>arr'. map_of (typedArrayMap s1) key = Some arr' \<and>
                 (\<forall>j. j < int (capacity s) \<longrightarrow> taGet arr' j = taGet arr j))"
    by blast
  have gets: "\<forall>j. get_cs s1 j = get_cs s j"
    using get_cs_grow[OF inv sch1 sz1 pres1] by blast
  show ?thesis
  proof (cases "indexSrc < 0 \<or> int (size_cs other) \<le> indexSrc")
    case True
    with g have "copyFrom rt s indexTarget other indexSrc = Inl (RangeError, s1)"
      by (simp add: copyFrom_def)
    with True sz1 gets gr lt1 capk show ?thesis by (intro exI[of _ s1]) simp
  next
    case False
    then have r: "0 \<le> indexSrc" "indexSrc < int (size_cs other)" by simp_all
    from invo have "size_cs other \<le> capacity other" by (simp add: store_inv_def)
    with r have rc: "indexSrc < int (capacity other)" by linarith
    from inv1 have d: "distinct (map fst (schema s1))" by (simp add: store_inv_def)
    have "\<forall>k\<in>set (map fst (schema s1)). \<exists>arr arr'. map_of (typedArrayMap s1) k = Some arr \<and>
            copyField rt indexTarget other indexSrc k arr = Inr arr'"
    proof
      fix k assume "k \<in> set (map fst (schema s1))"
      from schema_key_cases[OF this] obtain ft where ft: "map_of (schema s1) k = Some ft" by blast
      from store_inv_field[OF inv1 ft] obtain dst where dst: "map_of (typedArrayMap s1) k = Some dst"
        "arrayFor rt (capacity s1) ft dst" by blast
      from ft sch1 sch have "map_of (schema other) k = Some ft" by simp
      from store_inv_field[OF invo this] obtain src where src: "map_of (typedArrayMap other) k = Some src"
        "arrayFor rt (capacity other) ft src" by blast
      from dst(2) have c: "cls dst = classOf ft" by (auto simp: arrayFor_def)
      from taGet_valid[OF src(2) r(1) rc] c src(1)
      have "\<exists>arr'. copyField rt indexTarget other indexSrc k dst = Inr arr'"
        by (simp add: copyField_def taSet_def)
      with dst(1) show "\<exists>arr arr'. map_of (typedArrayMap s1) k = Some arr \<and>
            copyField rt indexTarget other indexSrc k arr = Inr arr'" by blast
    qed
    from forEachField_succeeds[OF d this] obtain s2 where
      "forEachField (copyField rt indexTarget other indexSrc) (map fst (schema s1)) s1 = Inr s2" by blast
    with g False have "\<exists>s'. copyFrom rt s indexTarget other indexSrc = Inr s'"
      by (simp add: copyFrom_def)
    with False sz1 gets gr lt1 capk show ?thesis by (intro exI[of _ s1]) simp
  qed
qed

lemma set_cs_fails:
  assumes ok: "rt_ok rt" and inv: "store_inv rt s" and i0: "0 \<le> index"
    and ng: "\<not> grows rt s (nat index)"
  shows "\<exists>s1. set_cs rt s index v = Inl (RangeError, s1) \<and> capacity s1 = capacity s \<and>
           size_cs s1 = size_cs s \<and> (\<forall>j. get_cs s1 j = get_cs s j)"
proof -
  from grow_step_fails[OF ok inv i0 ng] obtain s1 where
    g: "(if int (capacity s) \<le> index then ensureCapacity rt s (nat (index + 1)) else Inr s) =
          Inl (RangeError, s1)"
    and sch1: "schema s1 = schema s" and cap1: "capacity s1 = capacity s" and sz1: "size_cs s1 = size_cs s"
    and pres1: "\<forall>key arr. map_of (typedArrayMap s) key = Some arr \<longrightarrow>
              (\<exists>arr'. map_of (typedArrayMap s1) key = Some arr' \<and>
                 (\<forall>j. j < int (capacity s) \<longrightarrow> taGet arr' j = taGet arr j))"
    by blast
  have gets: "\<forall>j. get_cs s1 j = get_cs s j"
    using get_cs_grow[OF inv sch1 sz1 pres1] by blast
  from g i0 have "set_cs rt s index v = Inl (RangeError, s1)" by (simp add: set_cs_def)
  with cap1 sz1 gets show ?thesis by (intro exI[of _ s1] conjI)
qed

lemma testRuntime_limit:
  assumes inv: "store_inv testRuntime s" and ne: "schema s \<noteq> []" and big: "4294967296 \<le> index"
    and cap: "int (capacity s) \<le> index"
  shows "\<not> grows testRuntime s (nat index)"
proof
  assume g: "grows testRuntime s (nat index)"
  from big have i0: "0 \<le> index" by simp
  from inv have "1 \<le> capacity s" by (simp add: store_inv_def)
  then have cpos: "0 < capacity s" by simp
  from g cap grows_unfold[OF i0, of testRuntime s] obtain c where
    c: "growLoop (capacity s) (nat (index + 1)) = Some c" "allocatesFor testRuntime (schema s) c"
    by auto
  from growLoop_spec[OF cpos, of "nat (index + 1)"] c(1) have "nat (index + 1) \<le> c" by auto
  with big have "4294967296 \<le> int c" by linarith
  moreover from ne obtain key ft rest where "schema s = (key, ft) # rest"
    by (cases "schema s") auto
  with c(2) have "int c < 4294967296" by (simp add: allocatesFor_def testRuntime_def)
  ultimately show False by simp
qed

text \<open>
  C3 (amended). For a well-formed store and an index that is not negative, \<^verbatim>\<open>set\<close> succeeds
  exactly when the value is storable and the store takes the index: the index is below the
  capacity, or the runtime allocates the grown buffers. When the buffers cannot be allocated,
  \<^verbatim>\<open>set\<close> throws the RangeError and leaves the capacity, the size and every record as they
  were. When it succeeds and the index was at or beyond the capacity, the new capacity is the old
  one times the least power of two that puts it above the index, and every field buffer has that
  length; every row below the old size other than the written one reads as before; and the size
  is the maximum of the old size and index + 1.
\<close>

theorem set_grows_and_keeps_rows:
  assumes "rt_ok rt" and "store_inv rt s" and "0 \<le> index"
  shows "((\<exists>s'. set_cs rt s index v = Inr s') \<longleftrightarrow>
            storable rt (schema s) v \<and> grows rt s (nat index)) \<and>
         (\<not> grows rt s (nat index) \<longrightarrow>
            (\<exists>s1. set_cs rt s index v = Inl (RangeError, s1) \<and> capacity s1 = capacity s \<and>
                  size_cs s1 = size_cs s \<and> (\<forall>j. get_cs s1 j = get_cs s j))) \<and>
         (\<forall>s'. set_cs rt s index v = Inr s' \<longrightarrow>
            (int (capacity s) \<le> index \<longrightarrow>
               (\<exists>k. capacity s' = capacity s * 2 ^ k \<and> index < int (capacity s') \<and>
                    (\<forall>j. index < int (capacity s * 2 ^ j) \<longrightarrow> k \<le> j)) \<and>
               (\<forall>key arr. map_of (typedArrayMap s') key = Some arr \<longrightarrow>
                    length (elems arr) = capacity s')) \<and>
            (\<forall>j. j \<noteq> index \<and> j < int (size_cs s) \<longrightarrow> get_cs s' j = get_cs s j) \<and>
            size_cs s' = max (size_cs s) (nat (index + 1)))"
proof (intro conjI allI impI)
  show "(\<exists>s'. set_cs rt s index v = Inr s') \<longleftrightarrow> storable rt (schema s) v \<and> grows rt s (nat index)"
    using set_cs_succeeds[OF assms] set_cs_storable[OF assms] set_cs_grows[OF assms] by blast
next
  assume "\<not> grows rt s (nat index)"
  from set_cs_fails[OF assms this]
  show "\<exists>s1. set_cs rt s index v = Inl (RangeError, s1) \<and> capacity s1 = capacity s \<and>
                  size_cs s1 = size_cs s \<and> (\<forall>j. get_cs s1 j = get_cs s j)" .
next
  fix s' assume run: "set_cs rt s index v = Inr s'"
  note S = set_cs_Inr[OF assms run]
  from S show "size_cs s' = max (size_cs s) (nat (index + 1))" by simp
  from S show "\<exists>k. capacity s' = capacity s * 2 ^ k \<and> index < int (capacity s') \<and>
                    (\<forall>j. index < int (capacity s * 2 ^ j) \<longrightarrow> k \<le> j)" by blast
next
  fix s' key arr assume run: "set_cs rt s index v = Inr s'"
    and a: "map_of (typedArrayMap s') key = Some arr"
  from set_cs_Inr[OF assms run] have "store_inv rt s'" by simp
  from store_inv_lookup[OF this a] show "length (elems arr) = capacity s'"
    by (auto simp: arrayFor_def)
next
  fix s' j assume run: "set_cs rt s index v = Inr s'" and j: "j \<noteq> index \<and> j < int (size_cs s)"
  with get_cs_unchanged[OF assms run] show "get_cs s' j = get_cs s j" by blast
qed

lemma compStore_grows_20: "grows testRuntime compStore (nat 20)"
  by code_simp

lemma compStore_limit: "\<not> grows testRuntime compStore (nat 8589934592)"
  by (rule testRuntime_limit[OF compStore_inv]) (simp_all add: compStore_def compSchema_def)

theorem set_grows_and_keeps_rows_witness:
  "rt_ok testRuntime \<and> store_inv testRuntime compStore \<and> (0 :: int) \<le> 20 \<and>
   storable testRuntime (schema compStore) compValue \<and> grows testRuntime compStore (nat 20) \<and>
   int (capacity compStore) \<le> 20 \<and> (0 :: int) \<noteq> 20 \<and> 0 < int (size_cs compStore) \<and>
   (\<exists>s'. set_cs testRuntime compStore 20 compValue = Inr s' \<and> capacity s' = 32 \<and>
      (\<forall>key arr. map_of (typedArrayMap s') key = Some arr \<longrightarrow> length (elems arr) = 32) \<and>
      get_cs s' 0 = get_cs compStore 0 \<and> size_cs s' = 21) \<and>
   (0 :: int) \<le> 8589934592 \<and> \<not> grows testRuntime compStore (nat 8589934592) \<and>
   (\<exists>s1. set_cs testRuntime compStore 8589934592 compValue = Inl (RangeError, s1) \<and>
      capacity s1 = capacity compStore \<and> size_cs s1 = size_cs compStore \<and>
      get_cs s1 0 = get_cs compStore 0)"
proof -
  have i0: "(0 :: int) \<le> 20" by simp
  note T = set_grows_and_keeps_rows[OF testRuntime_ok compStore_inv i0, of compValue]
  have cap2: "capacity compStore = 2" and sz1: "size_cs compStore = 1"
    and sch: "schema compStore = compSchema" by (simp_all add: compStore_def)
  have st: "storable testRuntime (schema compStore) compValue"
    using compValue_storable by (simp only: sch)
  with T[THEN conjunct1] compStore_grows_20 obtain s' where
    run: "set_cs testRuntime compStore 20 compValue = Inr s'"
    by blast
  note U = T[THEN conjunct2, THEN conjunct2, rule_format, OF run]
  have cap: "int (capacity compStore) \<le> 20" by (simp add: cap2)
  from U[THEN conjunct1, rule_format, OF cap] obtain k where k: "capacity s' = capacity compStore * 2 ^ k"
    "20 < int (capacity s')" "\<forall>j. 20 < int (capacity compStore * 2 ^ j) \<longrightarrow> k \<le> j"
    and len: "\<forall>key arr. map_of (typedArrayMap s') key = Some arr \<longrightarrow> length (elems arr) = capacity s'"
    by blast
  have "20 < int (capacity compStore * 2 ^ 4)" by (simp add: cap2)
  with k(3) have "k \<le> 4" by blast
  then have "k = 0 \<or> k = 1 \<or> k = 2 \<or> k = 3 \<or> k = 4" by arith
  with k(1,2) have c32: "capacity s' = 32" unfolding cap2 by auto
  have "(0::int) \<noteq> 20 \<and> 0 < int (size_cs compStore)" by (simp add: sz1)
  with U have g: "get_cs s' 0 = get_cs compStore 0" by blast
  from U have "size_cs s' = max (size_cs compStore) (nat (20 + 1))" by blast
  then have s21: "size_cs s' = 21" by (simp add: sz1)
  from len c32 have len32: "\<forall>key arr. map_of (typedArrayMap s') key = Some arr \<longrightarrow> length (elems arr) = 32"
    by simp
  have pre: "rt_ok testRuntime \<and> store_inv testRuntime compStore \<and> (0 :: int) \<le> 20 \<and>
   storable testRuntime (schema compStore) compValue \<and> grows testRuntime compStore (nat 20) \<and>
   int (capacity compStore) \<le> 20 \<and> (0 :: int) \<noteq> 20 \<and> 0 < int (size_cs compStore)"
    using testRuntime_ok compStore_inv cap sz1 st compStore_grows_20 by simp
  from run c32 len32 g s21 have A: "\<exists>s'. set_cs testRuntime compStore 20 compValue = Inr s' \<and> capacity s' = 32 \<and>
      (\<forall>key arr. map_of (typedArrayMap s') key = Some arr \<longrightarrow> length (elems arr) = 32) \<and>
      get_cs s' 0 = get_cs compStore 0 \<and> size_cs s' = 21" by blast
  have i1: "(0 :: int) \<le> 8589934592" by simp
  note V = set_grows_and_keeps_rows[OF testRuntime_ok compStore_inv i1, of compValue]
  from V[THEN conjunct2, THEN conjunct1, rule_format, OF compStore_limit] obtain s1 where
    f: "set_cs testRuntime compStore 8589934592 compValue = Inl (RangeError, s1)"
       "capacity s1 = capacity compStore" "size_cs s1 = size_cs compStore"
       "\<forall>j. get_cs s1 j = get_cs compStore j" by blast
  from f(4) have "get_cs s1 0 = get_cs compStore 0" by blast
  with f(1,2,3) have B: "\<exists>s1. set_cs testRuntime compStore 8589934592 compValue = Inl (RangeError, s1) \<and>
      capacity s1 = capacity compStore \<and> size_cs s1 = size_cs compStore \<and>
      get_cs s1 0 = get_cs compStore 0" by (intro exI[of _ s1] conjI)
  from pre A i1 compStore_limit B show ?thesis by (intro conjI) (elim conjE; assumption)+
qed

text \<open>
  The store of the tests, of capacity 2, in the runtime that allocates arrays of fewer than
  \<open>2\<^sup>3\<^sup>2\<close> elements: \<^verbatim>\<open>set\<close> at the index \<open>2\<^sup>3\<^sup>3\<close> throws the RangeError of
  the allocation and the buffers are not grown.
\<close>

theorem set_grows_and_keeps_rows_counterexample:
  "(0 :: int) \<le> 8589934592 \<and> int (capacity compStore) \<le> 8589934592 \<and>
   thrownError (set_cs testRuntime compStore 8589934592 compValue) = Some RangeError \<and>
   capacity (storeOf (set_cs testRuntime compStore 8589934592 compValue)) = 2 \<and>
   size_cs (storeOf (set_cs testRuntime compStore 8589934592 compValue)) = 1"
proof -
  have i1: "(0 :: int) \<le> 8589934592" by simp
  from set_cs_fails[OF testRuntime_ok compStore_inv i1 compStore_limit, of compValue] obtain s1 where
    f: "set_cs testRuntime compStore 8589934592 compValue = Inl (RangeError, s1)"
       "capacity s1 = capacity compStore" "size_cs s1 = size_cs compStore" by blast
  then show ?thesis by (simp add: thrownError_def storeOf_def compStore_def)
qed

text \<open>
  C8 (amended). For two well-formed stores of one schema and a target index that is not negative,
  \<^verbatim>\<open>copyFrom\<close> throws exactly when the source index is outside the rows of the source
  store or the destination cannot be grown to hold the target index, and the error is the
  RangeError in both cases. The destination it then leaves has the size it had and returns for
  every index the record it returned before, but it is not the store as it was: when the buffers
  can be grown they have been grown before the source index is checked, and the capacity is the
  old one times the least power of two that puts it above the target index.
\<close>

theorem copyFrom_range_error:
  assumes "rt_ok rt" and "store_inv rt s" and "store_inv rt other"
    and "schema other = schema s" and "0 \<le> indexTarget"
  shows "((\<exists>e s1. copyFrom rt s indexTarget other indexSrc = Inl (e, s1)) \<longleftrightarrow>
            (indexSrc < 0 \<or> int (size_cs other) \<le> indexSrc \<or> \<not> grows rt s (nat indexTarget))) \<and>
         (\<forall>e s1. copyFrom rt s indexTarget other indexSrc = Inl (e, s1) \<longrightarrow>
            e = RangeError \<and> size_cs s1 = size_cs s \<and> (\<forall>j. get_cs s1 j = get_cs s j) \<and>
            (if grows rt s (nat indexTarget)
             then indexTarget < int (capacity s1) \<and>
                  (\<exists>k. capacity s1 = capacity s * 2 ^ k \<and>
                       (\<forall>j. indexTarget < int (capacity s * 2 ^ j) \<longrightarrow> k \<le> j))
             else capacity s1 = capacity s))"
proof -
  from copyFrom_cases[OF assms, of indexSrc] obtain s1 where
    s1: "size_cs s1 = size_cs s" "\<forall>j. get_cs s1 j = get_cs s j"
    and c: "if \<not> grows rt s (nat indexTarget)
            then capacity s1 = capacity s \<and> int (capacity s) \<le> indexTarget \<and>
                 copyFrom rt s indexTarget other indexSrc = Inl (RangeError, s1)
            else indexTarget < int (capacity s1) \<and>
                 (\<exists>k. capacity s1 = capacity s * 2 ^ k \<and>
                      (\<forall>j. indexTarget < int (capacity s * 2 ^ j) \<longrightarrow> k \<le> j)) \<and>
                 (if indexSrc < 0 \<or> int (size_cs other) \<le> indexSrc
                  then copyFrom rt s indexTarget other indexSrc = Inl (RangeError, s1)
                  else (\<exists>s'. copyFrom rt s indexTarget other indexSrc = Inr s'))" by blast
  show ?thesis
  proof (cases "grows rt s (nat indexTarget)")
    case False
    with c have "copyFrom rt s indexTarget other indexSrc = Inl (RangeError, s1)"
      "capacity s1 = capacity s" by simp_all
    with False s1 show ?thesis by simp
  next
    case gr: True
    with c have cap: "indexTarget < int (capacity s1) \<and>
                 (\<exists>k. capacity s1 = capacity s * 2 ^ k \<and>
                      (\<forall>j. indexTarget < int (capacity s * 2 ^ j) \<longrightarrow> k \<le> j))"
      and c': "if indexSrc < 0 \<or> int (size_cs other) \<le> indexSrc
                  then copyFrom rt s indexTarget other indexSrc = Inl (RangeError, s1)
                  else (\<exists>s'. copyFrom rt s indexTarget other indexSrc = Inr s')" by simp_all
    show ?thesis
    proof (cases "indexSrc < 0 \<or> int (size_cs other) \<le> indexSrc")
      case True
      with c' have "copyFrom rt s indexTarget other indexSrc = Inl (RangeError, s1)" by simp
      with True s1 gr cap show ?thesis by simp
    next
      case False
      with c' obtain s' where "copyFrom rt s indexTarget other indexSrc = Inr s'" by auto
      with False gr show ?thesis by simp
    qed
  qed
qed

lemma compStore_grows_5: "grows testRuntime compStore (nat 5)"
  by code_simp

theorem copyFrom_range_error_witness:
  "rt_ok testRuntime \<and> store_inv testRuntime compStore \<and> schema compStore = schema compStore \<and>
   (0 :: int) \<le> 5 \<and> grows testRuntime compStore (nat 5) \<and> int (size_cs compStore) \<le> 1 \<and>
   (\<exists>s1. copyFrom testRuntime compStore 5 compStore 1 = Inl (RangeError, s1) \<and>
      size_cs s1 = size_cs compStore \<and> get_cs s1 0 = get_cs compStore 0 \<and> capacity s1 = 8) \<and>
   \<not> ((0 :: int) < 0 \<or> int (size_cs compStore) \<le> 0) \<and>
   (\<exists>s'. copyFrom testRuntime compStore 5 compStore 0 = Inr s')"
proof -
  have i5: "(0 :: int) \<le> 5" by simp
  have cap2: "capacity compStore = 2" and sz1: "size_cs compStore = 1" by (simp_all add: compStore_def)
  note T = copyFrom_range_error[OF testRuntime_ok compStore_inv compStore_inv refl i5, of 1]
  have out: "int (size_cs compStore) \<le> 1" by (simp add: sz1)
  with T[THEN conjunct1] obtain e s1 where
    f: "copyFrom testRuntime compStore 5 compStore 1 = Inl (e, s1)" by blast
  note F = T[THEN conjunct2, rule_format, OF f]
  from F have e: "e = RangeError" and sz: "size_cs s1 = size_cs compStore"
    and g: "\<forall>j. get_cs s1 j = get_cs compStore j" by blast+
  from F have "if grows testRuntime compStore (nat 5)
             then 5 < int (capacity s1) \<and>
                  (\<exists>k. capacity s1 = capacity compStore * 2 ^ k \<and>
                       (\<forall>j. 5 < int (capacity compStore * 2 ^ j) \<longrightarrow> k \<le> j))
             else capacity s1 = capacity compStore" by blast
  with compStore_grows_5 have "5 < int (capacity s1) \<and>
                  (\<exists>k. capacity s1 = capacity compStore * 2 ^ k \<and>
                       (\<forall>j. 5 < int (capacity compStore * 2 ^ j) \<longrightarrow> k \<le> j))"
    by (simp only: if_True)
  then obtain k where k: "5 < int (capacity s1)" "capacity s1 = capacity compStore * 2 ^ k"
      "\<forall>j. 5 < int (capacity compStore * 2 ^ j) \<longrightarrow> k \<le> j" by blast
  have "5 < int (capacity compStore * 2 ^ 2)" by (simp add: cap2)
  with k(3) have "k \<le> 2" by blast
  then have "k = 0 \<or> k = 1 \<or> k = 2" by arith
  with k(1,2) have c8: "capacity s1 = 8" unfolding cap2 by auto
  from g have g0: "get_cs s1 0 = get_cs compStore 0" by blast
  from f e sz g0 c8 have A: "\<exists>s1. copyFrom testRuntime compStore 5 compStore 1 = Inl (RangeError, s1) \<and>
      size_cs s1 = size_cs compStore \<and> get_cs s1 0 = get_cs compStore 0 \<and> capacity s1 = 8"
    by (intro exI[of _ s1]) simp
  note U = copyFrom_range_error[OF testRuntime_ok compStore_inv compStore_inv refl i5, of 0]
  have inr: "\<not> ((0 :: int) < 0 \<or> int (size_cs compStore) \<le> 0)" by (simp add: sz1)
  with U[THEN conjunct1] compStore_grows_5
  have "\<not> (\<exists>e s1. copyFrom testRuntime compStore 5 compStore 0 = Inl (e, s1))" by blast
  then have B: "\<exists>s'. copyFrom testRuntime compStore 5 compStore 0 = Inr s'"
    by (cases "copyFrom testRuntime compStore 5 compStore 0") auto
  from testRuntime_ok compStore_inv i5 compStore_grows_5 out A inr B show ?thesis by (intro conjI refl)
qed

text \<open>
  The store of the tests has one row and the capacity 2. Copying into its row 5 from the row 1
  of a store of the same contents throws the RangeError, and leaves the destination with the
  capacity 8.
\<close>

theorem copyFrom_range_error_counterexample:
  "thrownError (copyFrom testRuntime compStore 5 compStore 1) = Some RangeError \<and>
   size_cs compStore = 1 \<and> capacity compStore = 2 \<and>
   capacity (storeOf (copyFrom testRuntime compStore 5 compStore 1)) = 8"
  by code_simp

lemma decode_valid:
  assumes "validElem rt (classOf ft) c"
  shows "\<exists>x. decode ft c = Inr x"
  using decode_converted[of rt ft c c] assms by (simp add: validElem_def)

lemma decode_zero: "\<exists>x. decode ft (VNumber (Fin 0)) = Inr x"
  by (cases ft) (simp_all add: decode_def toBigInt_def)

lemma store_inv_readRow:
  assumes inv: "store_inv rt s" and ft: "map_of (schema s) key = Some ft"
    and arr: "map_of (typedArrayMap s) key = Some arr" and i0: "0 \<le> i"
  shows "\<exists>x. decode ft (readRow s arr i) = Inr x"
proof (cases "i < int (size_cs s)")
  case True
  from store_inv_field[OF inv ft] arr have af: "arrayFor rt (capacity s) ft arr" by simp
  from inv have "size_cs s \<le> capacity s" by (simp add: store_inv_def)
  with True have "i < int (capacity s)" by linarith
  from taGet_valid[OF af i0 this] have "validElem rt (classOf ft) (taGet arr i)" by (simp add: validElem_def)
  from decode_valid[OF this] True show ?thesis by (simp add: readRow_def)
next
  case False
  with decode_zero[of ft] show ?thesis by (simp add: readRow_def)
qed

lemma get_cs_total:
  assumes inv: "store_inv rt s" and i0: "0 \<le> i"
  shows "\<exists>out. get_cs s i = Inr out"
proof -
  define f where "f key = (case map_of (schema s) key of Some ft \<Rightarrow>
      (case map_of (typedArrayMap s) key of Some arr \<Rightarrow>
        (case decode ft (readRow s arr i) of Inr x \<Rightarrow> x | Inl e \<Rightarrow> VUndefined) | None \<Rightarrow> VUndefined)
     | None \<Rightarrow> VUndefined)" for key
  have "getFields s i (map fst (schema s)) = Inr (map (\<lambda>key. (key, f key)) (map fst (schema s)))"
  proof (rule getFields_Inr, intro ballI)
    fix key assume "key \<in> set (map fst (schema s))"
    from schema_key_cases[OF this] obtain ft where ft: "map_of (schema s) key = Some ft" by blast
    from store_inv_field[OF inv ft] obtain arr where arr: "map_of (typedArrayMap s) key = Some arr" by blast
    from store_inv_readRow[OF inv ft arr i0] obtain x where x: "decode ft (readRow s arr i) = Inr x" by blast
    with ft arr have "f key = x" by (simp add: f_def)
    with ft arr x show "\<exists>arr ft. map_of (typedArrayMap s) key = Some arr \<and> map_of (schema s) key = Some ft \<and>
             decode ft (readRow s arr i) = Inr (f key)" by simp
  qed
  then show ?thesis by (simp add: get_cs_def)
qed

text \<open>What \<^verbatim>\<open>get\<close> returns for a field is what reading the row of the field's array decodes to.\<close>

lemma get_cs_field:
  assumes inv: "store_inv rt s" and g: "get_cs s i = Inr out"
    and ft: "map_of (schema s) key = Some ft"
  shows "\<exists>arr. map_of (typedArrayMap s) key = Some arr \<and> decode ft (readRow s arr i) = Inr (getProp out key)"
proof -
  have gen: "getFields s i keys = Inr out' \<Longrightarrow> key \<in> set keys \<Longrightarrow>
        \<exists>arr. map_of (typedArrayMap s) key = Some arr \<and> decode ft (readRow s arr i) = Inr (getProp out' key)"
    for keys out'
  proof (induction keys arbitrary: out')
    case Nil
    then show ?case by simp
  next
    case (Cons k keys)
    from Cons.prems(1) obtain arr kft x rest where
      a: "map_of (typedArrayMap s) k = Some arr" "map_of (schema s) k = Some kft"
         "decode kft (readRow s arr i) = Inr x" "getFields s i keys = Inr rest" "out' = (k, x) # rest"
      by (auto split: option.splits sum.splits)
    show ?case
    proof (cases "key = k")
      case True
      with a ft show ?thesis by (simp add: getProp_Cons)
    next
      case False
      with Cons.prems(2) have "key \<in> set keys" by simp
      from Cons.IH[OF a(4) this] a(5) False show ?thesis by (simp add: getProp_Cons)
    qed
  qed
  from ft have "key \<in> set (map fst (schema s))"
    by (metis list.set_map map_of_eq_None_iff option.distinct(1))
  with gen[of "map fst (schema s)" out] g show ?thesis by (simp add: get_cs_def)
qed

lemma get_cs_keys:
  assumes "get_cs s i = Inr out"
  shows "map fst out = map fst (schema s)"
proof -
  have "getFields s i keys = Inr out' \<Longrightarrow> map fst out' = keys" for keys out'
    by (induction keys arbitrary: out') (auto split: option.splits sum.splits)
  with assms show ?thesis by (simp add: get_cs_def)
qed

text \<open>Two records with the keys of one schema are equal when their fields are.\<close>

lemma component_eqI:
  assumes "map fst out = keys" "map fst out' = keys" "distinct keys"
    "\<forall>k\<in>set keys. getProp out k = getProp out' k"
  shows "out = out'"
  using assms
proof (induction keys arbitrary: out out')
  case Nil
  then show ?case by simp
next
  case (Cons k keys)
  from Cons.prems(1) obtain x r where o: "out = (k, x) # r" "map fst r = keys" by (cases out) auto
  from Cons.prems(2) obtain x' r' where o': "out' = (k, x') # r'" "map fst r' = keys" by (cases out') auto
  from Cons.prems(4) o o' have "x = x'" by (simp add: getProp_Cons)
  moreover have "\<forall>j\<in>set keys. getProp r j = getProp r' j"
  proof
    fix j assume j: "j \<in> set keys"
    with Cons.prems(3) have "j \<noteq> k" by auto
    moreover from Cons.prems(4) j have "getProp out j = getProp out' j" by simp
    ultimately show "getProp r j = getProp r' j" using o o' by (simp add: getProp_Cons)
  qed
  moreover from Cons.prems(3) have "distinct keys" by simp
  ultimately show ?case using Cons.IH[OF o(2) o'(2)] o o' by simp
qed

lemma reencode_field:
  assumes ok: "rt_ok rt" and c: "validElem rt (classOf ft) c \<or> c = VNumber (Fin 0)"
    and d: "decode ft c = Inr x"
  shows "\<exists>raw c'. coerce rt x = Inr raw \<and> convertElement rt (classOf ft) raw = Inr c' \<and>
           decode ft c' = Inr x"
proof (cases "c = VNumber (Fin 0)")
  case True
  have z: "toElement rt (classOf ft) (Fin 0) = Fin 0"
    using zero_valid[OF ok, of "classOf ft"]
    by (cases ft) (simp_all add: classOf_def validElem_def zeroOf_def convertElement_def isBigClass_def
        toIntegral_def truncq_def wrapS_def wrapU_def toUint8Clamp_def)
  show ?thesis
    using d True z
    by (cases ft)
       (auto simp: decode_def toBigInt_def coerce_def convertElement_def isBigClass_def classOf_def
          wrapS_def wrapU_def toIntegral_def truncq_def)
next
  case False
  with c have v: "convertElement rt (classOf ft) c = Inr c" by (simp add: validElem_def)
  show ?thesis
  proof (cases "isBigClass (classOf ft)")
    case True
    with v obtain n where n: "c = VBigInt n" "(if classOf ft = BigInt64Array then wrapS 64 n else wrapU 64 n) = n"
      by (cases c) (auto simp: convertElement_def split: if_splits)
    from True have "ft = BI64 \<or> ft = BIU64" by (cases ft) (simp_all add: classOf_def isBigClass_def)
    with d n True show ?thesis
      by (auto simp: decode_def toBigInt_def coerce_def convertElement_def)
  next
    case nb: False
    with v obtain y where y: "c = VNumber y" "toElement rt (classOf ft) y = y"
      by (cases c) (auto simp: convertElement_def)
    show ?thesis
    proof (cases "ft = BOOL")
      case True
      with d y have x: "x = VBool (y \<noteq> Fin 0)" by (simp add: decode_def)
      show ?thesis
        using x True
        by (auto simp: coerce_def convertElement_def classOf_def isBigClass_def decode_def
            toIntegral_def truncq_def wrapU_def)
    next
      case False
      with nb have "ft \<noteq> BI64" "ft \<noteq> BIU64" by (auto simp: classOf_def isBigClass_def)
      with False d y have "x = VNumber y" by (cases ft) (simp_all add: decode_def)
      with y nb d show ?thesis by (simp add: coerce_def convertElement_def)
    qed
  qed
qed

lemma readRow_valid:
  assumes inv: "store_inv rt s" and ft: "map_of (schema s) key = Some ft"
    and arr: "map_of (typedArrayMap s) key = Some arr" and i0: "0 \<le> i"
  shows "validElem rt (classOf ft) (readRow s arr i) \<or> readRow s arr i = VNumber (Fin 0)"
proof (cases "i < int (size_cs s)")
  case True
  from store_inv_field[OF inv ft] arr have af: "arrayFor rt (capacity s) ft arr" by simp
  from inv have "size_cs s \<le> capacity s" by (simp add: store_inv_def)
  with True have "i < int (capacity s)" by linarith
  from taGet_valid[OF af i0 this] True show ?thesis by (simp add: validElem_def readRow_def)
next
  case False
  then show ?thesis by (simp add: readRow_def)
qed

text \<open>A record read from a store can be stored under the same schema, and then reads back as it was.\<close>

lemma get_cs_storable:
  assumes ok: "rt_ok rt" and inv: "store_inv rt s" and i0: "0 \<le> i" and g: "get_cs s i = Inr v"
  shows "storable rt (schema s) v"
  unfolding storable_def
proof (intro allI impI)
  fix key ft assume ft: "map_of (schema s) key = Some ft"
  from get_cs_field[OF inv g ft] obtain arr where arr: "map_of (typedArrayMap s) key = Some arr"
    "decode ft (readRow s arr i) = Inr (getProp v key)" by blast
  from reencode_field[OF ok readRow_valid[OF inv ft arr(1) i0] arr(2)]
  show "\<exists>raw c. coerce rt (getProp v key) = Inr raw \<and> convertElement rt (classOf ft) raw = Inr c"
    by blast
qed

lemma set_get_back:
  assumes ok: "rt_ok rt" and inv: "store_inv rt s" and i0: "0 \<le> i" and g: "get_cs s i = Inr v"
    and invt: "store_inv rt t" and sch: "schema t = schema s" and j0: "0 \<le> j"
    and run: "set_cs rt t j v = Inr t'"
  shows "get_cs t' j = Inr v"
proof -
  from get_after_set[OF ok invt j0 run] obtain out where
    out: "get_cs t' j = Inr out" "map fst out = map fst (schema t)"
    and f: "\<And>key ft. map_of (schema t) key = Some ft \<Longrightarrow>
              (\<exists>raw c. coerce rt (getProp v key) = Inr raw \<and>
                 convertElement rt (classOf ft) raw = Inr c \<and> decode ft c = Inr (getProp out key))"
    by blast
  from inv have d: "distinct (map fst (schema s))" by (simp add: store_inv_def)
  have "\<forall>k\<in>set (map fst (schema s)). getProp out k = getProp v k"
  proof
    fix k assume "k \<in> set (map fst (schema s))"
    from schema_key_cases[OF this] obtain ft where ft: "map_of (schema s) k = Some ft" by blast
    from get_cs_field[OF inv g ft] obtain arr where arr: "map_of (typedArrayMap s) k = Some arr"
      "decode ft (readRow s arr i) = Inr (getProp v k)" by blast
    from reencode_field[OF ok readRow_valid[OF inv ft arr(1) i0] arr(2)] obtain raw c where
      r: "coerce rt (getProp v k) = Inr raw" "convertElement rt (classOf ft) raw = Inr c"
         "decode ft c = Inr (getProp v k)" by blast
    from f[of k ft] ft sch obtain raw' c' where
      r': "coerce rt (getProp v k) = Inr raw'" "convertElement rt (classOf ft) raw' = Inr c'"
          "decode ft c' = Inr (getProp out k)" by auto
    from r r' show "getProp out k = getProp v k" by simp
  qed
  from component_eqI[OF _ get_cs_keys[OF g] d this] out(2) sch have "out = v" by simp
  with out(1) show ?thesis by simp
qed

lemma getFields_cong2:
  assumes "schema s' = schema s"
    "\<forall>key\<in>set keys. (map_of (typedArrayMap s') key = None \<longleftrightarrow> map_of (typedArrayMap s) key = None) \<and>
       (\<forall>arr arr'. map_of (typedArrayMap s) key = Some arr \<longrightarrow> map_of (typedArrayMap s') key = Some arr' \<longrightarrow>
          readRow s' arr' i' = readRow s arr i)"
  shows "getFields s' i' keys = getFields s i keys"
  using assms(2)
proof (induction keys)
  case Nil
  then show ?case by simp
next
  case (Cons key keys)
  then have IH: "getFields s' i' keys = getFields s i keys" by simp
  from Cons.prems have k: "(map_of (typedArrayMap s') key = None \<longleftrightarrow> map_of (typedArrayMap s) key = None)"
    and r: "\<And>arr arr'. map_of (typedArrayMap s) key = Some arr \<Longrightarrow> map_of (typedArrayMap s') key = Some arr' \<Longrightarrow>
          readRow s' arr' i' = readRow s arr i" by auto
  show ?case
  proof (cases "map_of (typedArrayMap s) key")
    case None
    with k show ?thesis by simp
  next
    case (Some arr)
    with k obtain arr' where a': "map_of (typedArrayMap s') key = Some arr'" by auto
    from r[OF Some a'] Some a' IH assms(1) show ?thesis by (simp cong: option.case_cong sum.case_cong)
  qed
qed

lemma swapRemove_ok:
  assumes ok: "rt_ok rt" and inv: "store_inv rt s" and lt: "idx < size_cs s"
  shows "\<exists>s'. swapRemove rt s (int idx) = Inr s' \<and> store_inv rt s' \<and> schema s' = schema s \<and>
           size_cs s' = size_cs s - 1 \<and>
           (\<forall>j. j < size_cs s - 1 \<longrightarrow>
              get_cs s' (int j) = get_cs s (int (if j = idx then size_cs s - 1 else j)))"
proof (cases "idx = size_cs s - 1")
  case True
  let ?s' = "s\<lparr>size_cs := size_cs s - 1\<rparr>"
  from True lt have run: "swapRemove rt s (int idx) = Inr ?s'"
    by (auto simp: swapRemove_def Let_def)
  have inv': "store_inv rt ?s'" using inv unfolding store_inv_def by auto
  have g: "get_cs ?s' (int j) = get_cs s (int (if j = idx then size_cs s - 1 else j))"
    if j: "j < size_cs s - 1" for j
  proof -
    from j True have ne: "j \<noteq> idx" by simp
    have "getFields ?s' (int j) (map fst (schema s)) = getFields s (int j) (map fst (schema s))"
      by (rule getFields_cong2) (use j in \<open>auto simp: readRow_def\<close>)
    with ne show ?thesis by (simp add: get_cs_def)
  qed
  from run inv' g show ?thesis by (intro exI[of _ ?s']) simp
next
  case False
  with lt have il: "idx < size_cs s - 1" by simp
  let ?last = "int (size_cs s) - 1"
  from inv have szc: "size_cs s \<le> capacity s" and d: "distinct (map fst (schema s))"
    by (simp_all add: store_inv_def)
  have l0: "0 \<le> ?last" and lc: "?last < int (capacity s)" using lt szc by linarith+
  have ic: "int idx < int (capacity s)" using lt szc by linarith
  have body: "\<forall>k\<in>set (map fst (schema s)). \<exists>arr arr'. map_of (typedArrayMap s) k = Some arr \<and>
            swapField rt (int idx) ?last k arr = Inr arr'"
  proof
    fix k assume "k \<in> set (map fst (schema s))"
    from schema_key_cases[OF this] obtain ft where ft: "map_of (schema s) k = Some ft" by blast
    from store_inv_field[OF inv ft] obtain arr where arr: "map_of (typedArrayMap s) k = Some arr"
      "arrayFor rt (capacity s) ft arr" by blast
    from arr(2) have c: "cls arr = classOf ft" by (auto simp: arrayFor_def)
    from taGet_valid[OF arr(2) l0 lc] c have "\<exists>arr'. swapField rt (int idx) ?last k arr = Inr arr'"
      by (simp add: swapField_def taSet_def)
    with arr(1) show "\<exists>arr arr'. map_of (typedArrayMap s) k = Some arr \<and>
            swapField rt (int idx) ?last k arr = Inr arr'" by blast
  qed
  from forEachField_succeeds[OF d body] obtain s2 where
    loop: "forEachField (swapField rt (int idx) ?last) (map fst (schema s)) s = Inr s2" by blast
  note R = forEachField_Inr[OF loop d]
  have inv2: "store_inv rt s2"
  proof (rule forEachField_inv[OF ok inv loop])
    fix key arr arr' assume "swapField rt (int idx) ?last key arr = Inr arr'"
    then show "\<exists>i v. taSet rt arr i v = Inr arr'" unfolding swapField_def by blast
  qed
  let ?s' = "s2\<lparr>size_cs := size_cs s2 - 1\<rparr>"
  have run: "swapRemove rt s (int idx) = Inr ?s'"
    using loop False lt il by (simp add: swapRemove_def Let_def)
  have inv': "store_inv rt ?s'" using inv2 unfolding store_inv_def by auto
  have sz2: "size_cs s2 = size_cs s" and sch2: "schema s2 = schema s" using R by simp_all
  have g: "get_cs ?s' (int j) = get_cs s (int (if j = idx then size_cs s - 1 else j))"
    if j: "j < size_cs s - 1" for j
  proof -
    let ?j' = "int (if j = idx then size_cs s - 1 else j)"
    have "getFields ?s' (int j) (map fst (schema s)) = getFields s ?j' (map fst (schema s))"
    proof (rule getFields_cong2, simp add: sch2, intro ballI conjI allI impI)
      fix key assume kin: "key \<in> set (map fst (schema s))"
      from schema_key_cases[OF kin] obtain ft where ft: "map_of (schema s) key = Some ft" by blast
      from store_inv_field[OF inv ft] obtain arr where arr: "map_of (typedArrayMap s) key = Some arr"
        "arrayFor rt (capacity s) ft arr" by blast
      from R kin arr(1) obtain arr2 where a2: "swapField rt (int idx) ?last key arr = Inr arr2"
        "map_of (typedArrayMap s2) key = Some arr2" by (metis option.inject)
      from arr(2) have c: "cls arr = classOf ft" and l: "length (elems arr) = capacity s"
        by (auto simp: arrayFor_def)
      from a2(1) have t: "taSet rt arr (int idx) (taGet arr ?last) = Inr arr2" by (simp add: swapField_def)
      from taSet_Inr[OF t] obtain cv where cv: "convertElement rt (cls arr) (taGet arr ?last) = Inr cv"
        "\<forall>j. taGet arr2 j = (if j = int idx \<and> 0 \<le> int idx \<and> int idx < int (length (elems arr)) then cv else taGet arr j)"
        by blast
      from taGet_valid[OF arr(2) l0 lc] c cv(1) have cvv: "cv = taGet arr ?last" by simp
      show "(map_of (typedArrayMap ?s') key = None) = (map_of (typedArrayMap s) key = None)"
        using arr(1) a2(2) by simp
      fix b b' assume "map_of (typedArrayMap s) key = Some b" "map_of (typedArrayMap ?s') key = Some b'"
      with arr(1) a2(2) have e: "b = arr" "b' = arr2" by simp_all
      have "taGet arr2 (int j) = taGet arr ?j'"
      proof (cases "j = idx")
        case True
        with cv(2) l ic cvv lt show ?thesis by (simp add: of_nat_diff)
      next
        case False
        with cv(2) show ?thesis by simp
      qed
      moreover have "size_cs ?s' = size_cs s - 1" using sz2 by simp
      then have "int j < int (size_cs ?s')" using j by linarith
      then have "readRow ?s' arr2 (int j) = taGet arr2 (int j)" unfolding readRow_def by (rule if_P)
      moreover have "?j' < int (size_cs s)" using j lt by auto
      then have "readRow s arr ?j' = taGet arr ?j'" unfolding readRow_def by (rule if_P)
      ultimately show "readRow ?s' b' (int j) = readRow s b ?j'" using e by (simp only:)
    qed
    then show ?thesis using sch2 by (simp add: get_cs_def)
  qed
  from run inv' g sz2 sch2 show ?thesis by (intro exI[of _ ?s']) simp
qed

lemma removeRows_ok:
  assumes ok: "rt_ok rt" and d: "distinct (map fst sts)"
    and all: "\<forall>k st. map_of sts k = Some st \<longrightarrow> store_inv rt st \<and> idx < size_cs st"
  shows "\<exists>sts'. removeRows rt idx sts = Inr sts' \<and> map fst sts' = map fst sts \<and>
           (\<forall>k st. map_of sts k = Some st \<longrightarrow>
              (\<exists>st'. map_of sts' k = Some st' \<and> swapRemove rt st (int idx) = Inr st'))"
  using d all
proof (induction sts)
  case Nil
  then show ?case by simp
next
  case (Cons p sts)
  obtain key st where p: "p = (key, st)" by (cases p)
  from Cons.prems p have d': "distinct (map fst sts)" and nk: "key \<notin> fst ` set sts" by auto
  have all': "\<forall>k st. map_of sts k = Some st \<longrightarrow> store_inv rt st \<and> idx < size_cs st"
  proof (intro allI impI)
    fix k s assume m: "map_of sts k = Some s"
    then have "k \<in> fst ` set sts" by (metis map_of_eq_None_iff option.distinct(1))
    with nk have "k \<noteq> key" by auto
    with m p have "map_of (p # sts) k = Some s" by simp
    with Cons.prems(2) show "store_inv rt s \<and> idx < size_cs s" by blast
  qed
  from Cons.IH[OF d' all'] obtain rest' where
    r: "removeRows rt idx sts = Inr rest'" "map fst rest' = map fst sts"
       "\<forall>k st. map_of sts k = Some st \<longrightarrow> (\<exists>st'. map_of rest' k = Some st' \<and> swapRemove rt st (int idx) = Inr st')"
    by blast
  have "map_of (p # sts) key = Some st" using p by simp
  with Cons.prems(2) have "store_inv rt st \<and> idx < size_cs st" by blast
  with swapRemove_ok[OF ok, of st idx] obtain st' where st': "swapRemove rt st (int idx) = Inr st'" by blast
  have run: "removeRows rt idx (p # sts) = Inr ((key, st') # rest')"
    using p st' r(1) by simp
  have pw: "\<forall>k s. map_of (p # sts) k = Some s \<longrightarrow>
              (\<exists>s'. map_of ((key, st') # rest') k = Some s' \<and> swapRemove rt s (int idx) = Inr s')"
    using p st' r(3) by auto
  from run r(2) p pw show ?case by (intro exI[of _ "(key, st') # rest'"]) simp
qed

lemma nth_swap_butlast:
  assumes "idx < length ids" "j < length ids - 1"
  shows "butlast (ids[idx := ids ! (length ids - 1)]) ! j = ids ! (if j = idx then length ids - 1 else j)"
  using assms by (simp add: nth_butlast)

lemma set_swap_butlast:
  assumes d: "distinct ids" and i: "idx < length ids"
  shows "set (butlast (ids[idx := ids ! (length ids - 1)])) = set ids - {ids ! idx}"
    and "distinct (butlast (ids[idx := ids ! (length ids - 1)]))"
proof -
  let ?n = "length ids" and ?ids' = "butlast (ids[idx := ids ! (length ids - 1)])"
  have len: "length ?ids' = ?n - 1" by simp
  have nth': "?ids' ! j = ids ! (if j = idx then ?n - 1 else j)" if "j < ?n - 1" for j
    using nth_swap_butlast[OF i that] .
  show "set ?ids' = set ids - {ids ! idx}"
  proof (intro set_eqI iffI)
    fix x assume "x \<in> set ?ids'"
    then obtain j where j: "j < ?n - 1" "?ids' ! j = x" using len by (metis in_set_conv_nth)
    let ?k = "if j = idx then ?n - 1 else j"
    from j nth' have x: "x = ids ! ?k" by simp
    from j have k: "?k < ?n" "?k \<noteq> idx" by auto
    with d i have "ids ! ?k \<noteq> ids ! idx" by (simp add: nth_eq_iff_index_eq)
    with x k show "x \<in> set ids - {ids ! idx}" by simp
  next
    fix x assume "x \<in> set ids - {ids ! idx}"
    then obtain k where k: "k < ?n" "ids ! k = x" "x \<noteq> ids ! idx" by (auto simp: in_set_conv_nth)
    then have ne: "k \<noteq> idx" by auto
    show "x \<in> set ?ids'"
    proof (cases "k = ?n - 1")
      case True
      with ne i k have "idx < ?n - 1" by simp
      with nth'[OF this] True k len show ?thesis by (metis in_set_conv_nth)
    next
      case False
      with k have "k < ?n - 1" by simp
      with nth'[OF this] ne k len show ?thesis by (metis in_set_conv_nth)
    qed
  qed
  show "distinct ?ids'"
    unfolding distinct_conv_nth
  proof (intro allI impI)
    fix a b assume a: "a < length ?ids'" and b: "b < length ?ids'" and ab: "a \<noteq> b"
    let ?ka = "if a = idx then ?n - 1 else a" and ?kb = "if b = idx then ?n - 1 else b"
    from a b len have a': "a < ?n - 1" and b': "b < ?n - 1" by simp_all
    then have "?ka < ?n" "?kb < ?n" "?ka \<noteq> ?kb" using ab by auto
    with d have "ids ! ?ka \<noteq> ids ! ?kb" by (simp add: nth_eq_iff_index_eq)
    with nth'[OF a'] nth'[OF b'] show "?ids' ! a \<noteq> ?ids' ! b" by simp
  qed
qed

lemma map_of_keys_Some:
  assumes "map fst xs = map fst ys" "map_of ys k = Some y"
  shows "\<exists>x. map_of xs k = Some x"
proof -
  from assms(2) have "k \<in> fst ` set ys" by (metis map_of_eq_None_iff option.distinct(1))
  then have "k \<in> set (map fst ys)" by simp
  with assms(1) have "k \<in> set (map fst xs)" by simp
  then have "k \<in> fst ` set xs" by simp
  then show ?thesis by (metis map_of_eq_None_iff not_Some_eq)
qed

lemma removeEntity_shape:
  assumes ok: "rt_ok rt" and sh: "arch_shape rt a" and ix: "indexByEntity a e = Some idx"
  shows "\<exists>a'. removeEntity rt a e = Inr a' \<and> arch_shape rt a' \<and> ctors a' = ctors a \<and>
           typeIds a' = typeIds a \<and>
           entityIds a' = butlast ((entityIds a)[idx := entityIds a ! (length (entityIds a) - 1)]) \<and>
           indexByEntity a' =
             (if idx \<noteq> length (entityIds a) - 1
              then ((indexByEntity a)(e := None))(entityIds a ! (length (entityIds a) - 1) \<mapsto> idx)
              else (indexByEntity a)(e := None)) \<and>
           map fst (stores a') = map fst (stores a) \<and>
           (\<forall>k st. map_of (stores a) k = Some st \<longrightarrow>
              (\<exists>st'. map_of (stores a') k = Some st' \<and> swapRemove rt st (int idx) = Inr st'))"
proof -
  let ?ids = "entityIds a" and ?n = "length (entityIds a)"
  let ?lastE = "entityIds a ! (length (entityIds a) - 1)"
  let ?ids' = "butlast (?ids[idx := ?lastE])"
  let ?m' = "(if idx \<noteq> ?n - 1 then ((indexByEntity a)(e := None))(?lastE \<mapsto> idx)
              else (indexByEntity a)(e := None))"
  from sh ix have i: "idx < ?n" and ie: "?ids ! idx = e" by (auto simp: arch_shape_def)
  from sh have d: "distinct (map fst (stores a))"
    and st: "\<forall>k st. map_of (stores a) k = Some st \<longrightarrow> store_inv rt st \<and> size_cs st = ?n"
    and snd: "\<forall>g j. indexByEntity a g = Some j \<longrightarrow> j < ?n \<and> ?ids ! j = g"
    by (auto simp: arch_shape_def)
  from st i have all: "\<forall>k st. map_of (stores a) k = Some st \<longrightarrow> store_inv rt st \<and> idx < size_cs st"
    by auto
  from removeRows_ok[OF ok d all] obtain sts where
    sts: "removeRows rt idx (stores a) = Inr sts" "map fst sts = map fst (stores a)"
      "\<forall>k st. map_of (stores a) k = Some st \<longrightarrow>
              (\<exists>st'. map_of sts k = Some st' \<and> swapRemove rt st (int idx) = Inr st')" by blast
  let ?a' = "a\<lparr>entityIds := ?ids', indexByEntity := ?m', stores := sts\<rparr>"
  have run: "removeEntity rt a e = Inr ?a'"
    using ix i sts(1) by (auto simp: removeEntity_def Let_def)
  have len': "length ?ids' = ?n - 1" by simp
  have nth': "?ids' ! j = ?ids ! (if j = idx then ?n - 1 else j)" if "j < ?n - 1" for j
    using nth_swap_butlast[OF i that] .
  have stores': "store_inv rt st' \<and> size_cs st' = length ?ids'" if m: "map_of sts k = Some st'" for k st'
  proof -
    from map_of_keys_Some[OF sts(2)[symmetric] m] obtain s0 where s0: "map_of (stores a) k = Some s0" by blast
    with sts(3) m have sr: "swapRemove rt s0 (int idx) = Inr st'" by (metis option.inject)
    from st s0 have "store_inv rt s0" "size_cs s0 = ?n" by auto
    with swapRemove_ok[OF ok, of s0 idx] i sr show ?thesis by auto
  qed
  have sound: "j < length ?ids' \<and> ?ids' ! j = g" if m: "?m' g = Some j" for g j
  proof (cases "idx = ?n - 1")
    case True
    with m have ge: "g \<noteq> e" and mg: "indexByEntity a g = Some j" by (auto split: if_splits)
    from snd mg have j: "j < ?n" "?ids ! j = g" by auto
    with ge ie True have "j \<noteq> ?n - 1" by auto
    with j have jl: "j < ?n - 1" by simp
    with nth'[OF jl] j True show ?thesis by simp
  next
    case False
    with i have il: "idx < ?n - 1" by simp
    show ?thesis
    proof (cases "g = ?lastE")
      case True
      with m False have "j = idx" by simp
      with nth'[OF il] il True show ?thesis by simp
    next
      case ng: False
      with m False have ge: "g \<noteq> e" and mg: "indexByEntity a g = Some j" by (auto split: if_splits)
      from snd mg have j: "j < ?n" "?ids ! j = g" by auto
      with ng have "j \<noteq> ?n - 1" by auto
      with j have jl: "j < ?n - 1" by simp
      from j ge ie have "j \<noteq> idx" by auto
      with nth'[OF jl] j jl show ?thesis by simp
    qed
  qed
  have shape': "arch_shape rt ?a'"
    unfolding arch_shape_def
  proof (intro conjI allI impI)
    show "typeIds ?a' = map typeId (ctors ?a')" using sh by (simp add: arch_shape_def)
    show "distinct (map fst (stores ?a'))" using d sts(2) by simp
    have "fst ` set sts = set (map fst sts)" by simp
    also have "\<dots> = fst ` set (stores a)" using sts(2) by simp
    finally show "fst ` set (stores ?a') = set (typeIds ?a')" using sh by (simp add: arch_shape_def)
  next
    fix k st' assume "map_of (stores ?a') k = Some st'"
    then have "map_of sts k = Some st'" by simp
    from stores'[OF this] show "store_inv rt st'" "size_cs st' = length (entityIds ?a')" by simp_all
  next
    fix g j assume "indexByEntity ?a' g = Some j"
    then have "?m' g = Some j" by simp
    from sound[OF this] show "j < length (entityIds ?a')" "entityIds ?a' ! j = g" by simp_all
  qed
  from run shape' sts(2,3) show ?thesis by (intro exI[of _ ?a']) simp
qed

lemma getComponentAt_after_remove:
  assumes ok: "rt_ok rt" and sh: "arch_shape rt a"
    and keys: "map fst (stores a') = map fst (stores a)"
    and pw: "\<forall>k st. map_of (stores a) k = Some st \<longrightarrow>
              (\<exists>st'. map_of (stores a') k = Some st' \<and> swapRemove rt st (int idx) = Inr st')"
    and idx: "idx < length (entityIds a)" and i: "i < length (entityIds a) - 1"
  shows "getComponentAt a' c i = getComponentAt a c (if i = idx then length (entityIds a) - 1 else i)"
proof (cases "map_of (stores a) (typeId c)")
  case None
  have "map_of (stores a') (typeId c) = None"
  proof (rule ccontr)
    assume "map_of (stores a') (typeId c) \<noteq> None"
    then obtain y where "map_of (stores a') (typeId c) = Some y" by auto
    from map_of_keys_Some[OF keys[symmetric] this] None show False by simp
  qed
  with None show ?thesis by (simp add: getComponentAt_def)
next
  case (Some st)
  with pw obtain st' where st': "map_of (stores a') (typeId c) = Some st'"
    "swapRemove rt st (int idx) = Inr st'" by blast
  from sh Some have inv: "store_inv rt st" and sz: "size_cs st = length (entityIds a)"
    by (auto simp: arch_shape_def)
  from swapRemove_ok[OF ok inv, of idx] idx sz st'(2) i
  have "get_cs st' (int i) = get_cs st (int (if i = idx then length (entityIds a) - 1 else i))"
    by auto
  with Some st'(1) show ?thesis by (simp add: getComponentAt_def)
qed

text \<open>
  C1 (amended). In an archetype that satisfies the invariant of the data model (no entity in
  two rows, every entity of the list in the index map), removing an entity of the list
  succeeds, takes one from the size, keeps the invariant, leaves exactly the other entities,
  and every remaining entity is indexed at the one row that carries it, where every component
  reads as it read at the entity's row before.
\<close>

theorem removeEntity_keeps_rows:
  assumes "rt_ok rt" and "arch_inv rt a" and "e \<in> set (entityIds a)"
  shows "\<exists>a'. removeEntity rt a e = Inr a' \<and> 1 \<le> size_arch a \<and>
           size_arch a' = size_arch a - 1 \<and> arch_inv rt a' \<and>
           set (entityIds a') = set (entityIds a) - {e} \<and>
           (\<forall>r\<in>set (entityIds a').
              \<exists>i j. indexOf a' r = Some i \<and> i < size_arch a' \<and> entityIds a' ! i = r \<and>
                    (\<forall>i'. i' < size_arch a' \<and> entityIds a' ! i' = r \<longrightarrow> i' = i) \<and>
                    indexOf a r = Some j \<and>
                    (\<forall>c. getComponentAt a' c i = getComponentAt a c j))"
proof -
  let ?ids = "entityIds a" and ?n = "length (entityIds a)"
  from assms(2) have sh: "arch_shape rt a" and d: "distinct ?ids"
    and comp: "\<forall>g\<in>set ?ids. indexByEntity a g \<noteq> None" by (simp_all add: arch_inv_def)
  from sh have snd: "\<forall>g j. indexByEntity a g = Some j \<longrightarrow> j < ?n \<and> ?ids ! j = g"
    by (simp add: arch_shape_def)
  from comp assms(3) obtain idx where ix: "indexByEntity a e = Some idx" by auto
  with snd have i: "idx < ?n" and ie: "?ids ! idx = e" by auto
  from removeEntity_shape[OF assms(1) sh ix] obtain a' where
    run: "removeEntity rt a e = Inr a'" and sh': "arch_shape rt a'"
    and ids': "entityIds a' = butlast (?ids[idx := ?ids ! (?n - 1)])"
    and m': "indexByEntity a' =
             (if idx \<noteq> ?n - 1 then ((indexByEntity a)(e := None))(?ids ! (?n - 1) \<mapsto> idx)
              else (indexByEntity a)(e := None))"
    and keys: "map fst (stores a') = map fst (stores a)"
    and pw: "\<forall>k st. map_of (stores a) k = Some st \<longrightarrow>
              (\<exists>st'. map_of (stores a') k = Some st' \<and> swapRemove rt st (int idx) = Inr st')"
    by blast
  from set_swap_butlast[OF d i] ids' ie have set': "set (entityIds a') = set ?ids - {e}"
    and d': "distinct (entityIds a')" by simp_all
  have len': "length (entityIds a') = ?n - 1" using ids' by simp
  from sh' have snd': "\<forall>g j. indexByEntity a' g = Some j \<longrightarrow> j < length (entityIds a') \<and> entityIds a' ! j = g"
    by (simp add: arch_shape_def)
  have comp': "indexByEntity a' r \<noteq> None" if r: "r \<in> set (entityIds a')" for r
  proof -
    from r set' have rin: "r \<in> set ?ids" and re: "r \<noteq> e" by auto
    with comp have "indexByEntity a r \<noteq> None" by blast
    then obtain q where "indexByEntity a r = Some q" by auto
    with re show ?thesis unfolding m' by simp
  qed
  have inv': "arch_inv rt a'" using sh' d' comp' by (simp add: arch_inv_def)
  have row: "\<exists>i j. indexOf a' r = Some i \<and> i < size_arch a' \<and> entityIds a' ! i = r \<and>
                    (\<forall>i'. i' < size_arch a' \<and> entityIds a' ! i' = r \<longrightarrow> i' = i) \<and>
                    indexOf a r = Some j \<and>
                    (\<forall>c. getComponentAt a' c i = getComponentAt a c j)"
    if r: "r \<in> set (entityIds a')" for r
  proof -
    from comp'[OF r] obtain i' where i': "indexByEntity a' r = Some i'" by auto
    with snd' have il: "i' < length (entityIds a')" and ir: "entityIds a' ! i' = r" by auto
    from r set' comp obtain j where j: "indexByEntity a r = Some j" by auto
    with snd have jl: "j < ?n" and jr: "?ids ! j = r" by auto
    define k where "k = (if i' = idx then ?n - 1 else i')"
    from il len' have il': "i' < ?n - 1" by simp
    from nth_swap_butlast[OF i il'] ids' ir have "?ids ! k = r" by (simp add: k_def)
    moreover from il' have "k < ?n" by (auto simp: k_def)
    ultimately have "j = k" using d jl jr by (metis nth_eq_iff_index_eq)
    then have jk: "j = (if i' = idx then ?n - 1 else i')" by (simp add: k_def)
    have uniq: "\<forall>x. x < size_arch a' \<and> entityIds a' ! x = r \<longrightarrow> x = i'"
    proof (intro allI impI)
      fix x assume "x < size_arch a' \<and> entityIds a' ! x = r"
      then have "x < length (entityIds a')" "entityIds a' ! x = entityIds a' ! i'"
        using ir by (simp_all add: size_arch_def)
      with d' il show "x = i'" by (metis nth_eq_iff_index_eq)
    qed
    have gc: "\<forall>c. getComponentAt a' c i' = getComponentAt a c j"
    proof
      fix c
      from getComponentAt_after_remove[OF assms(1) sh keys pw i il', of c] jk
      show "getComponentAt a' c i' = getComponentAt a c j" by (simp only:)
    qed
    have "indexOf a' r = Some i'" "i' < size_arch a'" "indexOf a r = Some j"
      using i' il j by (simp_all add: indexOf_def size_arch_def)
    with ir uniq gc show ?thesis by (intro exI[of _ i'] exI[of _ j] conjI)
  qed
  from i have one: "1 \<le> size_arch a" by (simp add: size_arch_def)
  have sz: "size_arch a' = size_arch a - 1" using len' by (simp add: size_arch_def)
  from row have rows: "\<forall>r\<in>set (entityIds a').
              \<exists>i j. indexOf a' r = Some i \<and> i < size_arch a' \<and> entityIds a' ! i = r \<and>
                    (\<forall>i'. i' < size_arch a' \<and> entityIds a' ! i' = r \<longrightarrow> i' = i) \<and>
                    indexOf a r = Some j \<and>
                    (\<forall>c. getComponentAt a' c i = getComponentAt a c j)" by (rule ballI)
  from run one sz inv' set' rows show ?thesis by (intro exI[of _ a'] conjI)
qed

lemma mset_insertCtor: "mset (insertCtor rt c ds) = add_mset c (mset ds)"
  by (induction ds) auto

lemma mset_foldl_insertCtor:
  "mset (foldl (\<lambda>acc c. insertCtor rt c acc) acc cs) = mset acc + mset cs"
  by (induction cs arbitrary: acc) (auto simp: mset_insertCtor)

lemma mset_sortCtors: "mset (sortCtors rt cs) = mset cs"
  by (simp add: sortCtors_def mset_foldl_insertCtor)

lemma set_sortCtors: "set (sortCtors rt cs) = set cs"
  using mset_sortCtors[of rt cs] by (metis set_mset_mset)

lemma distinct_typeId_sortCtors:
  "distinct (map typeId (sortCtors rt cs)) \<longleftrightarrow> distinct (map typeId cs)"
proof -
  have "mset (map typeId (sortCtors rt cs)) = mset (map typeId cs)"
    by (simp add: mset_sortCtors)
  then show ?thesis by (rule mset_eq_imp_distinct_iff)
qed

lemma foldl_update_fresh_key:
  assumes "distinct (map k cs)" "k ` set cs \<inter> fst ` set acc = {}"
  shows "foldl (\<lambda>m c. AList.update (k c) (g c) m) acc cs = acc @ map (\<lambda>c. (k c, g c)) cs"
  using assms
proof (induction cs arbitrary: acc)
  case Nil
  then show ?case by simp
next
  case (Cons c cs)
  from Cons.prems have fresh: "k c \<notin> fst ` set acc" by auto
  from Cons.prems have d: "distinct (map k cs)" and nk: "k c \<notin> k ` set cs" by auto
  have dis: "k ` set cs \<inter> fst ` set (acc @ [(k c, g c)]) = {}"
    using Cons.prems(2) nk by auto
  show ?case
    using Cons.IH[OF d dis] by (simp add: update_fresh[OF fresh])
qed

lemma createStores_cases:
  "createStores rt cs m =
     (if \<forall>c\<in>set cs. allocatesFor rt (schemaOf c) DEFAULT_CAPACITY
      then Inr (foldl (\<lambda>m c. AList.update (typeId c)
                  (projr (newColumnStore rt (schemaOf c) DEFAULT_CAPACITY)) m) m cs)
      else Inl RangeError)"
proof (induction cs arbitrary: m)
  case Nil
  then show ?case by simp
next
  case (Cons c cs)
  have m: "max DEFAULT_CAPACITY 1 = DEFAULT_CAPACITY" by (simp add: DEFAULT_CAPACITY_def)
  show ?case
  proof (cases "allocatesFor rt (schemaOf c) DEFAULT_CAPACITY")
    case True
    then obtain st where st: "newColumnStore rt (schemaOf c) DEFAULT_CAPACITY = Inr st"
      using newColumnStore_ok[of rt "schemaOf c" DEFAULT_CAPACITY] m by auto
    with True Cons.IH show ?thesis by simp
  next
    case False
    then have "newColumnStore rt (schemaOf c) DEFAULT_CAPACITY = Inl RangeError"
      unfolding newColumnStore_cases m by simp
    with False show ?thesis by simp
  qed
qed

lemma newArchetype_cases:
  "newArchetype rt cs =
     (if \<forall>c\<in>set cs. allocatesFor rt (schemaOf c) DEFAULT_CAPACITY
      then Inr \<lparr>typeIds = map typeId (sortCtors rt cs),
                ctors = sortCtors rt cs,
                entityIds = [],
                indexByEntity = Map.empty,
                stores = foldl (\<lambda>m c. AList.update (typeId c)
                           (projr (newColumnStore rt (schemaOf c) DEFAULT_CAPACITY)) m) []
                           (sortCtors rt cs)\<rparr>
      else Inl RangeError)"
  by (simp add: newArchetype_def createStores_cases set_sortCtors Let_def)

lemma newArchetype_ok:
  assumes "\<forall>c\<in>set cs. allocatesFor rt (schemaOf c) DEFAULT_CAPACITY"
  shows "\<exists>a. newArchetype rt cs = Inr a"
  using assms by (simp add: newArchetype_cases)

lemma newArchetype_fields:
  assumes "newArchetype rt cs = Inr a"
  shows "ctors a = sortCtors rt cs"
    "typeIds a = map typeId (sortCtors rt cs)"
    "entityIds a = []"
    "indexByEntity a = Map.empty"
    "\<forall>c\<in>set cs. allocatesFor rt (schemaOf c) DEFAULT_CAPACITY"
  using assms by (auto simp: newArchetype_cases split: if_splits)

lemma newArchetype_stores:
  assumes "distinct (map typeId cs)" and run: "newArchetype rt cs = Inr a"
  shows "stores a =
         map (\<lambda>c. (typeId c, projr (newColumnStore rt (schemaOf c) DEFAULT_CAPACITY))) (sortCtors rt cs)"
proof -
  from assms have d: "distinct (map typeId (sortCtors rt cs))" by (simp add: distinct_typeId_sortCtors)
  from foldl_update_fresh_key[OF d, of "[]" "\<lambda>c. projr (newColumnStore rt (schemaOf c) DEFAULT_CAPACITY)"] run
  show ?thesis by (auto simp: newArchetype_cases split: if_splits)
qed

lemma map_of_ctor_map:
  assumes "distinct (map typeId cs)" "c \<in> set cs"
  shows "map_of (map (\<lambda>c. (typeId c, g c)) cs) (typeId c) = Some (g c)"
  using assms by (induction cs) (auto simp: image_iff)

lemma map_of_ctor_map_Some:
  assumes "map_of (map (\<lambda>c. (typeId c, g c)) cs) k = Some v"
  shows "\<exists>c\<in>set cs. typeId c = k \<and> v = g c"
  using assms by (induction cs) (auto split: if_splits)

lemma newArchetype_store:
  assumes run: "newArchetype rt cs = Inr a" and c: "c \<in> set cs"
  shows "newColumnStore rt (schemaOf c) DEFAULT_CAPACITY =
           Inr (projr (newColumnStore rt (schemaOf c) DEFAULT_CAPACITY))"
proof -
  from newArchetype_fields(5)[OF run] c have "allocatesFor rt (schemaOf c) DEFAULT_CAPACITY" by blast
  then have "allocatesFor rt (schemaOf c) (max DEFAULT_CAPACITY 1)" by (simp add: DEFAULT_CAPACITY_def)
  from newColumnStore_ok[OF this] show ?thesis by auto
qed

lemma newArchetype_inv:
  assumes ok: "rt_ok rt" and d: "distinct (map typeId cs)"
    and sch: "\<forall>c\<in>set cs. distinct (map fst (schemaOf c))"
    and run: "newArchetype rt cs = Inr a"
  shows "arch_inv rt a"
proof -
  note st = newArchetype_stores[OF d run]
  note fl = newArchetype_fields[OF run]
  have keys: "map fst (stores a) = map typeId (sortCtors rt cs)"
    unfolding st by (simp add: comp_def)
  have "arch_shape rt a"
    unfolding arch_shape_def
  proof (intro conjI allI impI)
    show "typeIds a = map typeId (ctors a)" by (simp add: fl)
    show "distinct (map fst (stores a))" using keys d by (simp add: distinct_typeId_sortCtors)
    have "fst ` set (stores a) = set (map fst (stores a))" by simp
    then show "fst ` set (stores a) = set (typeIds a)" by (simp only: keys fl)
  next
    fix k s assume "map_of (stores a) k = Some s"
    from map_of_ctor_map_Some[OF this[unfolded st]] obtain c where
      c: "c \<in> set (sortCtors rt cs)" "s = projr (newColumnStore rt (schemaOf c) DEFAULT_CAPACITY)" by blast
    from c(1) have cin: "c \<in> set cs" by (simp add: set_sortCtors)
    with sch have ds: "distinct (map fst (schemaOf c))" by simp
    from newArchetype_store[OF run cin] c(2)
    have new: "newColumnStore rt (schemaOf c) DEFAULT_CAPACITY = Inr s" by simp
    from newColumnStore_inv[OF ok ds new] newColumnStore_fields(3)[OF new]
    show "store_inv rt s" "size_cs s = length (entityIds a)"
      by (simp_all add: fl)
  next
    fix e i assume "indexByEntity a e = Some i"
    then show "i < length (entityIds a)" "entityIds a ! i = e" by (simp_all add: fl)
  qed
  then show ?thesis by (simp add: arch_inv_def fl)
qed

lemma setComponents_Inr:
  assumes dc: "distinct (map typeId cs)" and run: "setComponents rt n vals cs sts = Inr sts'"
  shows "map fst sts' = map fst sts \<and>
           (\<forall>c\<in>set cs. \<exists>s s'. map_of sts (typeId c) = Some s \<and> map_of sts' (typeId c) = Some s' \<and>
                set_cs rt s (int n) (valueFor vals c) = Inr s') \<and>
           (\<forall>k. k \<notin> typeId ` set cs \<longrightarrow> map_of sts' k = map_of sts k)"
  using dc run
proof (induction cs arbitrary: sts)
  case Nil
  then show ?case by simp
next
  case (Cons c cs)
  from Cons.prems(2) obtain s where s: "map_of sts (typeId c) = Some s"
    by (cases "map_of sts (typeId c)") simp_all
  from Cons.prems(2) s obtain s' where s': "set_cs rt s (int n) (valueFor vals c) = Inr s'"
    by (cases "set_cs rt s (int n) (valueFor vals c)") (auto split: prod.splits)
  let ?sts1 = "AList.update (typeId c) s' sts"
  from Cons.prems(2) s s' have r1: "setComponents rt n vals cs ?sts1 = Inr sts'" by simp
  from Cons.prems(1) have dc': "distinct (map typeId cs)" and nc: "typeId c \<notin> typeId ` set cs" by auto
  have m1: "map_of ?sts1 = (map_of sts)(typeId c \<mapsto> s')" by (simp add: update_conv')
  have kin: "typeId c \<in> fst ` set sts" using s by (metis map_of_eq_None_iff option.distinct(1))
  have keys1: "map fst ?sts1 = map fst sts" using kin by (simp add: update_keys)
  from Cons.IH[OF dc' r1] have
    r: "map fst sts' = map fst ?sts1"
       "\<forall>c'\<in>set cs. \<exists>s s'. map_of ?sts1 (typeId c') = Some s \<and> map_of sts' (typeId c') = Some s' \<and>
                set_cs rt s (int n) (valueFor vals c') = Inr s'"
       "\<forall>k. k \<notin> typeId ` set cs \<longrightarrow> map_of sts' k = map_of ?sts1 k" by blast+
  have a: "\<forall>c'\<in>set (c # cs). \<exists>s s'. map_of sts (typeId c') = Some s \<and> map_of sts' (typeId c') = Some s' \<and>
                set_cs rt s (int n) (valueFor vals c') = Inr s'"
  proof
    fix c' assume c': "c' \<in> set (c # cs)"
    show "\<exists>s s'. map_of sts (typeId c') = Some s \<and> map_of sts' (typeId c') = Some s' \<and>
                set_cs rt s (int n) (valueFor vals c') = Inr s'"
    proof (cases "c' \<in> set cs")
      case True
      with nc have ne: "typeId c' \<noteq> typeId c" by (metis imageI)
      from r(2) True obtain t t' where "map_of ?sts1 (typeId c') = Some t" "map_of sts' (typeId c') = Some t'"
        "set_cs rt t (int n) (valueFor vals c') = Inr t'" by blast
      with ne m1 show ?thesis by simp
    next
      case False
      with c' have e: "c' = c" by simp
      from r(3) nc have "map_of sts' (typeId c) = map_of ?sts1 (typeId c)" by blast
      with m1 have "map_of sts' (typeId c) = Some s'" by simp
      with e s s' show ?thesis by simp
    qed
  qed
  have b: "\<forall>k. k \<notin> typeId ` set (c # cs) \<longrightarrow> map_of sts' k = map_of sts k"
  proof (intro allI impI)
    fix k assume k: "k \<notin> typeId ` set (c # cs)"
    then have "k \<notin> typeId ` set cs" "k \<noteq> typeId c" by auto
    with r(3) m1 show "map_of sts' k = map_of sts k" by simp
  qed
  from r(1) keys1 a b show ?case by simp
qed

lemma addEntity_shape:
  assumes ok: "rt_ok rt" and sh: "arch_shape rt a" and dt: "distinct (typeIds a)"
    and run: "addEntity rt a e vals = Inr a'"
  shows "arch_shape rt a' \<and> ctors a' = ctors a \<and>
           typeIds a' = typeIds a \<and> entityIds a' = entityIds a @ [e] \<and>
           indexByEntity a' = (indexByEntity a)(e \<mapsto> length (entityIds a)) \<and>
           map fst (stores a') = map fst (stores a) \<and>
           (\<forall>c\<in>set (ctors a). \<exists>s s'. map_of (stores a) (typeId c) = Some s \<and>
                map_of (stores a') (typeId c) = Some s' \<and>
                set_cs rt s (int (length (entityIds a))) (valueFor vals c) = Inr s')"
proof -
  let ?n = "length (entityIds a)"
  from sh have tid: "typeIds a = map typeId (ctors a)" and d: "distinct (map fst (stores a))"
    and keys: "fst ` set (stores a) = set (typeIds a)"
    and sts: "\<forall>k s. map_of (stores a) k = Some s \<longrightarrow> store_inv rt s \<and> size_cs s = ?n"
    and snd: "\<forall>g j. indexByEntity a g = Some j \<longrightarrow> j < ?n \<and> entityIds a ! j = g"
    by (auto simp: arch_shape_def)
  from dt tid have dc: "distinct (map typeId (ctors a))" by simp
  from run obtain sts' where
    r1: "setComponents rt ?n vals (ctors a) (stores a) = Inr sts'"
    and a': "a' = a\<lparr>entityIds := entityIds a @ [e], indexByEntity := (indexByEntity a)(e \<mapsto> ?n), stores := sts'\<rparr>"
    by (cases "setComponents rt ?n vals (ctors a) (stores a)") (auto simp: addEntity_def Let_def)
  from setComponents_Inr[OF dc r1] have
    r: "map fst sts' = map fst (stores a)"
       "\<forall>c\<in>set (ctors a). \<exists>s s'. map_of (stores a) (typeId c) = Some s \<and> map_of sts' (typeId c) = Some s' \<and>
                set_cs rt s (int ?n) (valueFor vals c) = Inr s'" by blast+
  have n0: "0 \<le> int ?n" by simp
  have stores': "store_inv rt s' \<and> size_cs s' = length (entityIds a')" if m: "map_of sts' k = Some s'" for k s'
  proof -
    from m have "k \<in> fst ` set sts'" by (metis map_of_eq_None_iff option.distinct(1))
    then have "k \<in> set (map fst sts')" by simp
    with r(1) have "k \<in> fst ` set (stores a)" by simp
    with keys tid obtain c where c: "c \<in> set (ctors a)" "k = typeId c" by auto
    with r(2) m obtain s where s: "map_of (stores a) k = Some s" "set_cs rt s (int ?n) (valueFor vals c) = Inr s'"
      by (metis option.inject)
    from sts s(1) have inv: "store_inv rt s" and sz: "size_cs s = ?n" by auto
    from set_cs_Inr[OF ok inv n0 s(2)] sz show ?thesis by (simp add: a' nat_add_distrib)
  qed
  have "arch_shape rt a'"
    unfolding arch_shape_def
  proof (intro conjI allI impI)
    show "typeIds a' = map typeId (ctors a')" using tid by (simp add: a')
    show "distinct (map fst (stores a'))" using d r(1) by (simp add: a')
    have "fst ` set sts' = set (map fst sts')" by simp
    also have "\<dots> = fst ` set (stores a)" using r(1) by simp
    finally show "fst ` set (stores a') = set (typeIds a')" using keys by (simp add: a')
  next
    fix k s' assume "map_of (stores a') k = Some s'"
    then have "map_of sts' k = Some s'" by (simp add: a')
    from stores'[OF this] show "store_inv rt s'" "size_cs s' = length (entityIds a')" by simp_all
  next
    fix g j assume m: "indexByEntity a' g = Some j"
    have "j < length (entityIds a') \<and> entityIds a' ! j = g"
    proof (cases "g = e")
      case True
      with m have "j = ?n" by (simp add: a')
      with True show ?thesis by (simp add: a' nth_append)
    next
      case False
      with m have "indexByEntity a g = Some j" by (simp add: a')
      with snd have "j < ?n" "entityIds a ! j = g" by blast+
      then show ?thesis by (simp add: a' nth_append)
    qed
    then show "j < length (entityIds a')" "entityIds a' ! j = g" by blast+
  qed
  with r show ?thesis by (simp add: a')
qed

lemma newArchetype_typed:
  assumes d: "distinct (map typeId cs)" and run: "newArchetype rt cs = Inr a"
  shows "arch_typed a"
  unfolding arch_typed_def
proof (intro conjI ballI allI impI)
  show "distinct (typeIds a)"
    using d by (simp add: newArchetype_fields[OF run] distinct_typeId_sortCtors)
next
  fix c s assume c: "c \<in> set (ctors a)"
    and m: "map_of (stores a) (typeId c) = Some s"
  from d have ds: "distinct (map typeId (sortCtors rt cs))" by (simp add: distinct_typeId_sortCtors)
  from c have cs: "c \<in> set (sortCtors rt cs)" by (simp add: newArchetype_fields[OF run])
  then have cin: "c \<in> set cs" by (simp add: set_sortCtors)
  from map_of_ctor_map[OF ds cs, of "\<lambda>c. projr (newColumnStore rt (schemaOf c) DEFAULT_CAPACITY)"] m
  have "s = projr (newColumnStore rt (schemaOf c) DEFAULT_CAPACITY)"
    by (simp add: newArchetype_stores[OF d run])
  with newArchetype_store[OF run cin] have "newColumnStore rt (schemaOf c) DEFAULT_CAPACITY = Inr s" by simp
  from newColumnStore_fields(1)[OF this] show "schema s = schemaOf c" .
qed

lemma addEntity_ok:
  assumes ok: "rt_ok rt" and sh: "arch_shape rt a" and ty: "arch_typed a"
    and run: "addEntity rt a e vals = Inr a'"
  shows "arch_shape rt a' \<and> arch_typed a' \<and>
           ctors a' = ctors a \<and> typeIds a' = typeIds a \<and> entityIds a' = entityIds a @ [e] \<and>
           indexByEntity a' = (indexByEntity a)(e \<mapsto> length (entityIds a)) \<and>
           (\<forall>c\<in>set (ctors a). \<exists>s s'. map_of (stores a) (typeId c) = Some s \<and>
                map_of (stores a') (typeId c) = Some s' \<and>
                set_cs rt s (int (length (entityIds a))) (valueFor vals c) = Inr s')"
proof -
  from ty have dt: "distinct (typeIds a)"
    and sc: "\<forall>c\<in>set (ctors a). \<forall>s. map_of (stores a) (typeId c) = Some s \<longrightarrow> schema s = schemaOf c"
    by (simp_all add: arch_typed_def)
  from addEntity_shape[OF ok sh dt run] have
    a': "arch_shape rt a'" "ctors a' = ctors a"
      "typeIds a' = typeIds a" "entityIds a' = entityIds a @ [e]"
      "indexByEntity a' = (indexByEntity a)(e \<mapsto> length (entityIds a))"
      "\<forall>c\<in>set (ctors a). \<exists>s s'. map_of (stores a) (typeId c) = Some s \<and>
                map_of (stores a') (typeId c) = Some s' \<and>
                set_cs rt s (int (length (entityIds a))) (valueFor vals c) = Inr s'"
    by blast+
  from sh have sts: "\<forall>k s. map_of (stores a) k = Some s \<longrightarrow> store_inv rt s" by (simp add: arch_shape_def)
  have n0: "0 \<le> int (length (entityIds a))" by simp
  have "arch_typed a'"
    unfolding arch_typed_def
  proof (intro conjI ballI allI impI)
    show "distinct (typeIds a')" using dt a'(3) by simp
  next
    fix c s' assume c: "c \<in> set (ctors a')" and m: "map_of (stores a') (typeId c) = Some s'"
    from c a'(2) have cin: "c \<in> set (ctors a)" by simp
    with a'(6) m obtain s where s: "map_of (stores a) (typeId c) = Some s"
      "set_cs rt s (int (length (entityIds a))) (valueFor vals c) = Inr s'" by (metis option.inject)
    from sts s(1) have "store_inv rt s" by blast
    from set_cs_Inr[OF ok this n0 s(2)] have "schema s' = schema s" by simp
    with sc cin s(1) show "schema s' = schemaOf c" by simp
  qed
  with a' show ?thesis by (intro conjI)
qed

lemma addEntity_inv:
  assumes inv: "arch_inv rt a" and ne: "e \<notin> set (entityIds a)"
    and sh': "arch_shape rt a'" and ids: "entityIds a' = entityIds a @ [e]"
    and m: "indexByEntity a' = (indexByEntity a)(e \<mapsto> length (entityIds a))"
  shows "arch_inv rt a'"
  using inv ne sh' unfolding arch_inv_def ids m by auto

lemma removeEntity_typed:
  assumes ok: "rt_ok rt" and sh: "arch_shape rt a" and ty: "arch_typed a"
    and c: "ctors a' = ctors a" and t: "typeIds a' = typeIds a"
    and keys: "map fst (stores a') = map fst (stores a)"
    and pw: "\<forall>k st. map_of (stores a) k = Some st \<longrightarrow>
              (\<exists>st'. map_of (stores a') k = Some st' \<and> swapRemove rt st (int idx) = Inr st')"
    and i: "idx < length (entityIds a)"
  shows "arch_typed a'"
  unfolding arch_typed_def
proof (intro conjI ballI allI impI)
  show "distinct (typeIds a')" using ty t by (simp add: arch_typed_def)
next
  fix k s' assume k: "k \<in> set (ctors a')" and m: "map_of (stores a') (typeId k) = Some s'"
  from map_of_keys_Some[OF keys[symmetric] m] obtain s where s: "map_of (stores a) (typeId k) = Some s" by blast
  with pw m have sr: "swapRemove rt s (int idx) = Inr s'" by (metis option.inject)
  from sh s have "store_inv rt s" "size_cs s = length (entityIds a)" by (auto simp: arch_shape_def)
  with swapRemove_ok[OF ok, of s idx] i sr have "schema s' = schema s" by auto
  moreover from ty k c s have "schema s = schemaOf k" by (simp add: arch_typed_def)
  ultimately show "schema s' = schemaOf k" by simp
qed

lemma position_storable: "storable testRuntime (schemaOf Position) (position x y)"
  unfolding storable_def Position_def position_def
  by (simp add: getProp_def coerce_def convertElement_def isBigClass_def classOf_def)

lemma valueFor_Position: "valueFor [''Position'' \<mapsto> v] Position = v"
  by (simp add: valueFor_def Position_def)

lemma add_position:
  assumes inv: "arch_inv testRuntime a" and ty: "arch_typed a" and c: "ctors a = [Position]"
    and ne: "e \<notin> set (entityIds a)"
    and run: "addEntity testRuntime a e vals = Inr a'"
  shows "arch_inv testRuntime a' \<and> arch_typed a' \<and> ctors a' = [Position] \<and>
           entityIds a' = entityIds a @ [e]"
proof -
  from inv have sh: "arch_shape testRuntime a" by (simp add: arch_inv_def)
  from addEntity_ok[OF testRuntime_ok sh ty run] have
    a': "arch_shape testRuntime a'"
      "arch_typed a'" "ctors a' = ctors a" "entityIds a' = entityIds a @ [e]"
      "indexByEntity a' = (indexByEntity a)(e \<mapsto> length (entityIds a))" by blast+
  from addEntity_inv[OF inv ne a'(1,4,5)] a' c show ?thesis by simp
qed

lemma returns: "\<not> isl r \<Longrightarrow> \<exists>x. r = Inr x"
  by (cases r) simp_all

lemma threeEntities_runs: "\<not> isl threeEntities"
  by code_simp

lemma threeEntities_inv:
  "\<exists>a. threeEntities = Inr a \<and> arch_inv testRuntime a \<and> entityIds a = [1, 2, 3]"
proof -
  from returns[OF threeEntities_runs] obtain a3 where r: "threeEntities = Inr a3" by blast
  from r obtain a0 where a0: "newArchetype testRuntime [Position] = Inr a0"
    by (cases "newArchetype testRuntime [Position]") (auto simp: threeEntities_def andThen_def)
  from r a0 obtain a1 where a1: "addEntity testRuntime a0 1 [''Position'' \<mapsto> position 10 0] = Inr a1"
    by (cases "addEntity testRuntime a0 1 [''Position'' \<mapsto> position 10 0]")
       (auto simp: threeEntities_def andThen_def)
  from r a0 a1 obtain a2 where a2: "addEntity testRuntime a1 2 [''Position'' \<mapsto> position 20 0] = Inr a2"
    by (cases "addEntity testRuntime a1 2 [''Position'' \<mapsto> position 20 0]")
       (auto simp: threeEntities_def andThen_def)
  from r a0 a1 a2 have a3: "addEntity testRuntime a2 3 [''Position'' \<mapsto> position 30 0] = Inr a3"
    by (simp add: threeEntities_def andThen_def)
  have d: "distinct (map typeId [Position])" by simp
  have s: "\<forall>c\<in>set [Position]. distinct (map fst (schemaOf c))" by (simp add: Position_def)
  note inv0 = newArchetype_inv[OF testRuntime_ok d s a0]
  note ty0 = newArchetype_typed[OF d a0]
  have c0: "ctors a0 = [Position]" by (simp add: newArchetype_fields[OF a0] sortCtors_def)
  have e0: "entityIds a0 = []" by (simp add: newArchetype_fields[OF a0])
  from add_position[OF inv0 ty0 c0 _ a1] e0 have
    b1: "arch_inv testRuntime a1" "arch_typed a1" "ctors a1 = [Position]" "entityIds a1 = [1]" by auto
  from add_position[OF b1(1,2,3) _ a2] b1(4) have
    b2: "arch_inv testRuntime a2" "arch_typed a2" "ctors a2 = [Position]" "entityIds a2 = [1, 2]" by auto
  from add_position[OF b2(1,2,3) _ a3] b2(4) have
    b3: "arch_inv testRuntime a3" "entityIds a3 = [1, 2, 3]" by auto
  with r show ?thesis by blast
qed

theorem removeEntity_keeps_rows_witness:
  "rt_ok testRuntime \<and>
   (\<exists>a. threeEntities = Inr a \<and> arch_inv testRuntime a \<and> 2 \<in> set (entityIds a) \<and>
      (\<exists>a'. removeEntity testRuntime a 2 = Inr a' \<and> size_arch a = 3 \<and> size_arch a' = 2 \<and>
         set (entityIds a') = {1, 3} \<and>
         (\<forall>r\<in>set (entityIds a').
            \<exists>i j. indexOf a' r = Some i \<and> entityIds a' ! i = r \<and> indexOf a r = Some j \<and>
                  (\<forall>c. getComponentAt a' c i = getComponentAt a c j))))"
proof -
  from threeEntities_inv obtain a where a: "threeEntities = Inr a" "arch_inv testRuntime a"
    "entityIds a = [1, 2, 3]" by blast
  from a(3) have m: "2 \<in> set (entityIds a)" by simp
  from removeEntity_keeps_rows[OF testRuntime_ok a(2) m] obtain a' where
    r: "removeEntity testRuntime a 2 = Inr a'" "size_arch a' = size_arch a - 1"
       "set (entityIds a') = set (entityIds a) - {2}"
    and rows: "\<forall>r\<in>set (entityIds a').
              \<exists>i j. indexOf a' r = Some i \<and> i < size_arch a' \<and> entityIds a' ! i = r \<and>
                    (\<forall>i'. i' < size_arch a' \<and> entityIds a' ! i' = r \<longrightarrow> i' = i) \<and>
                    indexOf a r = Some j \<and>
                    (\<forall>c. getComponentAt a' c i = getComponentAt a c j)"
    by blast
  have s3: "size_arch a = 3" using a(3) by (simp add: size_arch_def)
  with r(2) have s2: "size_arch a' = 2" by simp
  have "set [1, 2, 3 :: int] - {2} = {1, 3}" by auto
  with r(3) a(3) have set': "set (entityIds a') = {1, 3}" by simp
  have rows': "\<forall>r\<in>set (entityIds a').
            \<exists>i j. indexOf a' r = Some i \<and> entityIds a' ! i = r \<and> indexOf a r = Some j \<and>
                  (\<forall>c. getComponentAt a' c i = getComponentAt a c j)"
  proof
    fix x assume "x \<in> set (entityIds a')"
    with rows obtain i j where "indexOf a' x = Some i" "entityIds a' ! i = x" "indexOf a x = Some j"
      "\<forall>c. getComponentAt a' c i = getComponentAt a c j" by blast
    then show "\<exists>i j. indexOf a' x = Some i \<and> entityIds a' ! i = x \<and> indexOf a x = Some j \<and>
                  (\<forall>c. getComponentAt a' c i = getComponentAt a c j)" by (intro exI[of _ i] exI[of _ j] conjI)
  qed
  from r(1) s3 s2 set' rows' have "\<exists>a'. removeEntity testRuntime a 2 = Inr a' \<and> size_arch a = 3 \<and> size_arch a' = 2 \<and>
         set (entityIds a') = {1, 3} \<and>
         (\<forall>r\<in>set (entityIds a').
            \<exists>i j. indexOf a' r = Some i \<and> entityIds a' ! i = r \<and> indexOf a r = Some j \<and>
                  (\<forall>c. getComponentAt a' c i = getComponentAt a c j))" by (intro exI[of _ a'] conjI)
  with a(1,2) m have "\<exists>a. threeEntities = Inr a \<and> arch_inv testRuntime a \<and> 2 \<in> set (entityIds a) \<and>
      (\<exists>a'. removeEntity testRuntime a 2 = Inr a' \<and> size_arch a = 3 \<and> size_arch a' = 2 \<and>
         set (entityIds a') = {1, 3} \<and>
         (\<forall>r\<in>set (entityIds a').
            \<exists>i j. indexOf a' r = Some i \<and> entityIds a' ! i = r \<and> indexOf a r = Some j \<and>
                  (\<forall>c. getComponentAt a' c i = getComponentAt a c j)))"
    by - (rule exI[of _ a], (rule conjI, assumption)+, assumption)
  with testRuntime_ok show ?thesis by (rule conjI)
qed

text \<open>
  C1 as stated fails where an entity was added twice: the archetype holds two rows of entity 1;
  after \<^verbatim>\<open>removeEntity\<close> the entity list still holds entity 1, in row 0, and the index map
  has no row for it.
\<close>

theorem removeEntity_keeps_rows_counterexample:
  "map_sum id entityIds addedTwice = Inr [1, 1] \<and>
   map_sum id entityIds addedTwiceRemoved = Inr [1] \<and>
   map_sum id (rowOf 1) addedTwiceRemoved = Inr None"
  by code_simp














lemma getOrCreateArchetype_cases:
  "getOrCreateArchetype rt w cs =
     (case map_of (archetypeBySignature w) (joinBar (map typeId (sortCtors rt cs))) of
        Some existing \<Rightarrow> Inr (joinBar (map typeId (sortCtors rt cs)), w)
      | None \<Rightarrow>
          (case newArchetype rt (sortCtors rt cs) of
             Inl e \<Rightarrow> Inl e
           | Inr archetype \<Rightarrow>
               Inr (joinBar (map typeId (sortCtors rt cs)),
                    w\<lparr>archetypeBySignature :=
                        AList.update (joinBar (map typeId (sortCtors rt cs))) archetype
                          (archetypeBySignature w)\<rparr>)))"
  by (simp add: getOrCreateArchetype_def Let_def)

lemma getOrCreateArchetype_ref:
  assumes "getOrCreateArchetype rt w cs = Inr (ref, w1)"
  shows "ref = joinBar (map typeId (sortCtors rt cs))"
  using assms by (auto simp: getOrCreateArchetype_cases split: option.splits sum.splits)










lemma queryRows_no_types: "queryRows a [] rows = Inr (map (\<lambda>r. (snd r, [])) rows)"
  by (induction rows) auto

lemma forEachIndexed_entities: "map snd (forEachIndexed a) = entityIds a"
  by (simp add: forEachIndexed_def)

lemma queryArchetypes_no_types:
  "queryArchetypes [] as = Inr (map (\<lambda>e. (e, [])) (concat (map entityIds as)))"
proof (induction as)
  case Nil
  then show ?case by simp
next
  case (Cons a as)
  have "map (\<lambda>r. (snd r, [])) (forEachIndexed a) = map (\<lambda>e. (e, [])) (map snd (forEachIndexed a))"
    by (simp add: comp_def)
  then have "queryRows a [] (forEachIndexed a) = Inr (map (\<lambda>e. (e, [])) (entityIds a))"
    by (simp add: queryRows_no_types forEachIndexed_entities)
  with Cons show ?case by simp
qed

text \<open>
  C10. Two calls of \<^verbatim>\<open>addEntityWithComponents\<close> with entity 1 and a position leave the
  entity in two rows of the archetype, the index map at the later row, and a query over the
  position returns two results for the entity.
\<close>

theorem added_twice_two_rows:
  "map_sum id (entitiesOf ''Position'') addedTwiceWorld = Inr [1, 1] \<and>
   map_sum id (rowIn ''Position'' 1) addedTwiceWorld = Inr (Some 1) \<and>
   andThen addedTwiceWorld (queryOf [Position]) =
     Inr [(1, [position 1 1]), (1, [position 2 2])]"
  by code_simp

lemma componentsAt_ok:
  assumes "\<forall>c\<in>set cs. \<exists>v. getComponentAt a c i = Inr v"
  shows "\<exists>comps. componentsAt a i cs = Inr comps \<and> length comps = length cs \<and>
           (\<forall>n<length cs. getComponentAt a (cs ! n) i = Inr (comps ! n))"
  using assms
proof (induction cs)
  case Nil
  then show ?case by simp
next
  case (Cons c cs)
  from Cons.prems obtain v where v: "getComponentAt a c i = Inr v" by auto
  from Cons obtain comps where r: "componentsAt a i cs = Inr comps" "length comps = length cs"
    "\<forall>n<length cs. getComponentAt a (cs ! n) i = Inr (comps ! n)" by auto
  have "\<forall>n<length (c # cs). getComponentAt a ((c # cs) ! n) i = Inr ((v # comps) ! n)"
  proof (intro allI impI)
    fix n assume "n < length (c # cs)"
    then show "getComponentAt a ((c # cs) ! n) i = Inr ((v # comps) ! n)"
      using v r(3) by (cases n) auto
  qed
  with v r(1,2) show ?case by (intro exI[of _ "v # comps"]) simp
qed

lemma queryRows_ok:
  assumes "\<forall>r\<in>set rows. \<forall>c\<in>set cs. \<exists>v. getComponentAt a c (fst r) = Inr v"
  shows "\<exists>out. queryRows a cs rows = Inr out \<and> map fst out = map snd rows \<and>
           (\<forall>j<length rows. length (snd (out ! j)) = length cs \<and>
              (\<forall>n<length cs. getComponentAt a (cs ! n) (fst (rows ! j)) = Inr (snd (out ! j) ! n)))"
  using assms
proof (induction rows)
  case Nil
  then show ?case by simp
next
  case (Cons r rows)
  obtain i e where r: "r = (i, e)" by (cases r)
  from Cons.prems r have "\<forall>c\<in>set cs. \<exists>v. getComponentAt a c i = Inr v" by auto
  from componentsAt_ok[OF this] obtain comps where c: "componentsAt a i cs = Inr comps"
    "length comps = length cs" "\<forall>n<length cs. getComponentAt a (cs ! n) i = Inr (comps ! n)" by blast
  from Cons obtain out where o: "queryRows a cs rows = Inr out" "map fst out = map snd rows"
    "\<forall>j<length rows. length (snd (out ! j)) = length cs \<and>
              (\<forall>n<length cs. getComponentAt a (cs ! n) (fst (rows ! j)) = Inr (snd (out ! j) ! n))"
    by auto
  have "\<forall>j<length (r # rows). length (snd (((e, comps) # out) ! j)) = length cs \<and>
              (\<forall>n<length cs. getComponentAt a (cs ! n) (fst ((r # rows) ! j)) = Inr (snd (((e, comps) # out) ! j) ! n))"
  proof (intro allI impI)
    fix j assume "j < length (r # rows)"
    then show "length (snd (((e, comps) # out) ! j)) = length cs \<and>
              (\<forall>n<length cs. getComponentAt a (cs ! n) (fst ((r # rows) ! j)) = Inr (snd (((e, comps) # out) ! j) ! n))"
      using c o(3) r by (cases j) auto
  qed
  with c(1) o(1,2) r show ?case by (intro exI[of _ "(e, comps) # out"]) simp
qed

lemma getComponentAt_total:
  assumes sh: "arch_shape rt a" and t: "typeId c \<in> set (typeIds a)"
  shows "\<exists>v. getComponentAt a c i = Inr v"
proof -
  from sh t have "typeId c \<in> fst ` set (stores a)" by (simp add: arch_shape_def)
  then obtain s where s: "map_of (stores a) (typeId c) = Some s"
    by (metis map_of_eq_None_iff not_Some_eq)
  with sh have "store_inv rt s" by (auto simp: arch_shape_def)
  from get_cs_total[OF this, of "int i"] s show ?thesis by (simp add: getComponentAt_def)
qed

lemma queryArchetype_ok:
  assumes sh: "arch_shape rt a" and m: "set (map typeId cs) \<subseteq> set (typeIds a)"
  shows "\<exists>out. queryRows a cs (forEachIndexed a) = Inr out \<and> map fst out = entityIds a \<and>
           (\<forall>i<length out. length (snd (out ! i)) = length cs \<and>
              (\<forall>n<length cs. getComponentAt a (cs ! n) i = Inr (snd (out ! i) ! n)))"
proof -
  have tot: "\<forall>r\<in>set (forEachIndexed a). \<forall>c\<in>set cs. \<exists>v. getComponentAt a c (fst r) = Inr v"
    using getComponentAt_total[OF sh] m by auto
  from queryRows_ok[OF tot] obtain out where o: "queryRows a cs (forEachIndexed a) = Inr out"
    "map fst out = map snd (forEachIndexed a)"
    "\<forall>j<length (forEachIndexed a). length (snd (out ! j)) = length cs \<and>
              (\<forall>n<length cs. getComponentAt a (cs ! n) (fst (forEachIndexed a ! j)) = Inr (snd (out ! j) ! n))"
    by blast
  from o(2) have ids: "map fst out = entityIds a" by (simp add: forEachIndexed_entities)
  then have len: "length out = length (entityIds a)" by (metis length_map)
  have "\<forall>i<length out. length (snd (out ! i)) = length cs \<and>
              (\<forall>n<length cs. getComponentAt a (cs ! n) i = Inr (snd (out ! i) ! n))"
  proof (intro allI impI)
    fix i assume i: "i < length out"
    with len have "i < length (forEachIndexed a)" "fst (forEachIndexed a ! i) = i"
      by (simp_all add: forEachIndexed_def)
    with o(3) show "length (snd (out ! i)) = length cs \<and>
              (\<forall>n<length cs. getComponentAt a (cs ! n) i = Inr (snd (out ! i) ! n))" by metis
  qed
  with o(1) ids show ?thesis by blast
qed

lemma queryArchetypes_ok:
  assumes "\<forall>a\<in>set as. arch_shape rt a"
  shows "\<exists>outs. queryArchetypes cs as = Inr (concat outs) \<and>
           list_all2 (\<lambda>a out. map fst out = entityIds a \<and>
                (\<forall>i<length out. length (snd (out ! i)) = length cs \<and>
                   (\<forall>n<length cs. getComponentAt a (cs ! n) i = Inr (snd (out ! i) ! n))))
             (filter (\<lambda>a. set (map typeId cs) \<subseteq> set (typeIds a)) as) outs"
  using assms
proof (induction as)
  case Nil
  then show ?case by (intro exI[of _ "[]"]) simp
next
  case (Cons a as)
  from Cons obtain outs where IH: "queryArchetypes cs as = Inr (concat outs)"
    "list_all2 (\<lambda>a out. map fst out = entityIds a \<and>
                (\<forall>i<length out. length (snd (out ! i)) = length cs \<and>
                   (\<forall>n<length cs. getComponentAt a (cs ! n) i = Inr (snd (out ! i) ! n))))
             (filter (\<lambda>a. set (map typeId cs) \<subseteq> set (typeIds a)) as) outs" by auto
  have hasAll: "list_all (containsTypeId a) (map typeId cs) \<longleftrightarrow> set (map typeId cs) \<subseteq> set (typeIds a)"
    by (auto simp: list_all_iff containsTypeId_def)
  show ?case
  proof (cases "set (map typeId cs) \<subseteq> set (typeIds a)")
    case False
    with hasAll IH show ?thesis by (intro exI[of _ outs]) simp
  next
    case True
    from Cons.prems have "arch_shape rt a" by simp
    from queryArchetype_ok[OF this True] obtain out where
      o: "queryRows a cs (forEachIndexed a) = Inr out" "map fst out = entityIds a"
         "\<forall>i<length out. length (snd (out ! i)) = length cs \<and>
              (\<forall>n<length cs. getComponentAt a (cs ! n) i = Inr (snd (out ! i) ! n))" by blast
    from hasAll True have h: "list_all (containsTypeId a) (map typeId cs)" by simp
    have "queryArchetypes cs (a # as) = Inr (concat (out # outs))"
      using h o(1) IH(1) by simp
    moreover have "list_all2 (\<lambda>a out. map fst out = entityIds a \<and>
                (\<forall>i<length out. length (snd (out ! i)) = length cs \<and>
                   (\<forall>n<length cs. getComponentAt a (cs ! n) i = Inr (snd (out ! i) ! n))))
             (filter (\<lambda>a. set (map typeId cs) \<subseteq> set (typeIds a)) (a # as)) (out # outs)"
      using True o(2,3) IH(2) by simp
    ultimately show ?thesis by blast
  qed
qed

lemma concat_entities:
  assumes "list_all2 (\<lambda>a out. map fst out = entityIds a \<and> P a out) as outs"
  shows "map fst (concat outs) = concat (map entityIds as)"
  using assms by (induction as outs rule: list_all2_induct) (auto simp: map_concat)

lemma world_shape_archetypes:
  assumes "world_shape rt w"
  shows "\<forall>a\<in>set (map snd (archetypeBySignature w)). arch_shape rt a"
proof
  fix a assume "a \<in> set (map snd (archetypeBySignature w))"
  then obtain k where "(k, a) \<in> set (archetypeBySignature w)" by auto
  moreover from assms have "distinct (map fst (archetypeBySignature w))" by (simp add: world_shape_def)
  ultimately have "map_of (archetypeBySignature w) k = Some a" by simp
  with assms show "arch_shape rt a" unfolding world_shape_def by blast
qed

lemma query_ok:
  assumes "world_shape rt w"
  shows "\<exists>outs. query w cs = Inr (concat outs) \<and>
           list_all2 (\<lambda>a out. map fst out = entityIds a \<and>
                (\<forall>i<length out. length (snd (out ! i)) = length cs \<and>
                   (\<forall>n<length cs. getComponentAt a (cs ! n) i = Inr (snd (out ! i) ! n))))
             (matching cs w) outs \<and>
           map fst (concat outs) = concat (map entityIds (matching cs w))"
proof -
  from queryArchetypes_ok[OF world_shape_archetypes[OF assms], of cs] obtain outs where
    o: "queryArchetypes cs (map snd (archetypeBySignature w)) = Inr (concat outs)"
       "list_all2 (\<lambda>a out. map fst out = entityIds a \<and>
                (\<forall>i<length out. length (snd (out ! i)) = length cs \<and>
                   (\<forall>n<length cs. getComponentAt a (cs ! n) i = Inr (snd (out ! i) ! n))))
             (filter (\<lambda>a. set (map typeId cs) \<subseteq> set (typeIds a)) (map snd (archetypeBySignature w))) outs"
    by blast
  from concat_entities[OF o(2)] o show ?thesis
    by (intro exI[of _ outs]) (simp add: query_def matching_def)
qed


lemma joinBar_Cons: "joinBar (x # xs) = x @ (if xs = [] then [] else CHR ''|'' # joinBar xs)"
  by (cases xs) simp_all

lemma joinBar_nonempty:
  assumes "xs \<noteq> []" "\<forall>x\<in>set xs. x \<noteq> []"
  shows "joinBar xs \<noteq> []"
  using assms by (cases xs) (simp_all add: joinBar_Cons)

lemma split_at_bar:
  assumes "CHR ''|'' \<notin> set a" "CHR ''|'' \<notin> set b"
    "r = [] \<or> (\<exists>t. r = CHR ''|'' # t)" "r' = [] \<or> (\<exists>t. r' = CHR ''|'' # t)"
    "a @ r = b @ r'"
  shows "a = b \<and> r = r'"
proof -
  have tr: "takeWhile (\<lambda>c. c \<noteq> CHR ''|'') r = []" using assms(3) by auto
  have tr': "takeWhile (\<lambda>c. c \<noteq> CHR ''|'') r' = []" using assms(4) by auto
  have "takeWhile (\<lambda>c. c \<noteq> CHR ''|'') (a @ r) = a @ takeWhile (\<lambda>c. c \<noteq> CHR ''|'') r"
    by (rule takeWhile_append2) (use assms(1) in auto)
  moreover have "takeWhile (\<lambda>c. c \<noteq> CHR ''|'') (b @ r') = b @ takeWhile (\<lambda>c. c \<noteq> CHR ''|'') r'"
    by (rule takeWhile_append2) (use assms(2) in auto)
  ultimately have "a = b" using assms(5) tr tr' by simp
  with assms(5) show ?thesis by simp
qed

lemma joinBar_inj:
  assumes "\<forall>x\<in>set xs. x \<noteq> [] \<and> CHR ''|'' \<notin> set x" "\<forall>y\<in>set ys. y \<noteq> [] \<and> CHR ''|'' \<notin> set y"
    "joinBar xs = joinBar ys"
  shows "xs = ys"
  using assms
proof (induction xs arbitrary: ys)
  case Nil
  show ?case
  proof (rule ccontr)
    assume "[] \<noteq> ys"
    then have "ys \<noteq> []" by simp
    from joinBar_nonempty[OF this] Nil show False by auto
  qed
next
  case (Cons x xs)
  have "joinBar (x # xs) \<noteq> []" using joinBar_nonempty[of "x # xs"] Cons.prems(1) by auto
  with Cons.prems(3) have "ys \<noteq> []" by auto
  then obtain y ys' where ys: "ys = y # ys'" by (cases ys) auto
  let ?r = "if xs = [] then [] else CHR ''|'' # joinBar xs"
  let ?r' = "if ys' = [] then [] else CHR ''|'' # joinBar ys'"
  from Cons.prems(3) ys have eq: "x @ ?r = y @ ?r'" by (simp only: joinBar_Cons)
  have "x = y \<and> ?r = ?r'"
    by (rule split_at_bar[OF _ _ _ _ eq]) (use Cons.prems(1,2) ys in auto)
  then have xy: "x = y" and rr: "?r = ?r'" by simp_all
  have "xs = ys'"
  proof (cases "xs = []")
    case True
    with rr show ?thesis by (auto split: if_splits)
  next
    case False
    with rr have ne: "ys' \<noteq> []" and j: "joinBar xs = joinBar ys'" by (auto split: if_splits)
    have p1: "\<forall>x\<in>set xs. x \<noteq> [] \<and> CHR ''|'' \<notin> set x" using Cons.prems(1) by simp
    have p2: "\<forall>y\<in>set ys'. y \<noteq> [] \<and> CHR ''|'' \<notin> set y" using Cons.prems(2) ys by simp
    from Cons.IH[OF p1 p2 j] show ?thesis .
  qed
  with xy ys show ?case by simp
qed

lemma registry_ids:
  assumes "registry U" "set cs \<subseteq> U"
  shows "\<forall>x\<in>set (map typeId cs). x \<noteq> [] \<and> CHR ''|'' \<notin> set x"
  using assms unfolding registry_def by auto

lemma registry_signature_inj:
  assumes r: "registry U" and xs: "set xs \<subseteq> U" and ys: "set ys \<subseteq> U"
    and j: "joinBar (map typeId xs) = joinBar (map typeId ys)"
  shows "xs = ys"
proof -
  from joinBar_inj[OF registry_ids[OF r xs] registry_ids[OF r ys] j]
  have m: "map typeId xs = map typeId ys" .
  from r xs ys have "inj_on typeId (set xs \<union> set ys)"
    unfolding registry_def by (meson Un_least inj_on_subset)
  from inj_on_map_eq_map[OF this] m show ?thesis by simp
qed

lemma map_of_update_other: "k \<noteq> r \<Longrightarrow> map_of (AList.update r v al) k = map_of al k"
  by (simp add: update_conv')

lemma map_of_update_same: "map_of (AList.update r v al) r = Some v"
  by (simp add: update_conv')

text \<open>What \<^verbatim>\<open>getOrCreateArchetype\<close> does to a well-formed world.\<close>

lemma getOrCreateArchetype_ok:
  assumes ok: "rt_ok rt" and reg: "registry U" and sh: "world_shape rt w" and ty: "world_typed rt U w"
    and cs: "set cs \<subseteq> U" and d: "distinct (map typeId cs)"
    and run: "getOrCreateArchetype rt w cs = Inr (ref, w')"
  shows "\<exists>a. map_of (archetypeBySignature w') ref = Some a \<and>
           ctors a = sortCtors rt (sortCtors rt cs) \<and>
           (map_of (archetypeBySignature w) ref = Some a \<or>
            map_of (archetypeBySignature w) ref = None \<and> entityIds a = []) \<and>
           world_shape rt w' \<and> world_typed rt U w' \<and>
           entityArchetype w' = entityArchetype w \<and>
           (\<forall>k. k \<noteq> ref \<longrightarrow> map_of (archetypeBySignature w') k = map_of (archetypeBySignature w) k) \<and>
           (world_rows w \<longrightarrow> world_rows w')"
proof -
  let ?tmp = "sortCtors rt cs"
  let ?sig = "joinBar (map typeId ?tmp)"
  have ref: "ref = ?sig" by (rule getOrCreateArchetype_ref[OF run])
  have tU: "set ?tmp \<subseteq> U" using cs by (simp add: set_sortCtors)
  have td: "distinct (map typeId ?tmp)" using d by (simp add: distinct_typeId_sortCtors)
  show ?thesis
  proof (cases "map_of (archetypeBySignature w) ?sig")
    case (Some a)
    with run have w': "w' = w" by (auto simp: getOrCreateArchetype_cases)
    from ty Some obtain tmp0 where t0: "?sig = joinBar (map typeId tmp0)" "ctors a = sortCtors rt tmp0"
      and aU: "set (ctors a) \<subseteq> U" unfolding world_typed_def by blast
    from aU t0(2) have "set tmp0 \<subseteq> U" by (simp add: set_sortCtors)
    from registry_signature_inj[OF reg tU this t0(1)] have "tmp0 = ?tmp" by simp
    with t0(2) have c: "ctors a = sortCtors rt ?tmp" by simp
    from Some c sh ty ref w' show ?thesis by (intro exI[of _ a]) simp
  next
    case None
    from None run obtain a0 where new: "newArchetype rt ?tmp = Inr a0"
      by (cases "newArchetype rt ?tmp") (auto simp: getOrCreateArchetype_cases)
    let ?a = "a0"
    from None run new have w': "w' = w\<lparr>archetypeBySignature := AList.update ?sig ?a (archetypeBySignature w)\<rparr>"
      by (auto simp: getOrCreateArchetype_cases)
    have m_same: "map_of (archetypeBySignature w') ?sig = Some ?a" by (simp add: w' map_of_update_same)
    have m_other: "\<And>k. k \<noteq> ?sig \<Longrightarrow> map_of (archetypeBySignature w') k = map_of (archetypeBySignature w) k"
      by (simp add: w' map_of_update_other)
    have schemas: "\<forall>c\<in>set ?tmp. distinct (map fst (schemaOf c))"
      using reg tU unfolding registry_def by auto
    have ainv: "arch_inv rt ?a" by (rule newArchetype_inv[OF ok td schemas new])
    have atyped: "arch_typed ?a" by (rule newArchetype_typed[OF td new])
    have actors: "ctors ?a = sortCtors rt ?tmp" by (simp add: newArchetype_fields[OF new])
    have aids: "entityIds ?a = []" by (simp add: newArchetype_fields[OF new])
    have lookup: "arch = ?a \<and> k = ?sig \<or> k \<noteq> ?sig \<and> map_of (archetypeBySignature w) k = Some arch"
      if "map_of (archetypeBySignature w') k = Some arch" for k arch
      using that m_same m_other by (cases "k = ?sig") auto
    have sh': "world_shape rt w'"
      unfolding world_shape_def
    proof (intro conjI allI impI)
      from sh have "distinct (map fst (archetypeBySignature w))" by (simp add: world_shape_def)
      then show "distinct (map fst (archetypeBySignature w'))" by (simp add: w' distinct_update)
    next
      fix k arch assume "map_of (archetypeBySignature w') k = Some arch"
      from lookup[OF this] ainv sh show "arch_shape rt arch"
        unfolding world_shape_def arch_inv_def by blast
    next
      fix e k assume "entityArchetype w' e = Some k"
      then have "entityArchetype w e = Some k" by (simp add: w')
      with sh have "map_of (archetypeBySignature w) k \<noteq> None" unfolding world_shape_def by blast
      with None have "k \<noteq> ?sig" by auto
      with m_other \<open>map_of (archetypeBySignature w) k \<noteq> None\<close>
      show "map_of (archetypeBySignature w') k \<noteq> None" by simp
    qed
    have ty': "world_typed rt U w'"
      unfolding world_typed_def
    proof (intro allI impI)
      fix k arch assume "map_of (archetypeBySignature w') k = Some arch"
      from lookup[OF this] show "arch_typed arch \<and> set (ctors arch) \<subseteq> U \<and>
        (\<exists>tmp. k = joinBar (map typeId tmp) \<and> ctors arch = sortCtors rt tmp)"
      proof
        assume "arch = ?a \<and> k = ?sig"
        with atyped actors tU show ?thesis by (auto simp: set_sortCtors)
      next
        assume "k \<noteq> ?sig \<and> map_of (archetypeBySignature w) k = Some arch"
        with ty show ?thesis unfolding world_typed_def by blast
      qed
    qed
    have rows': "world_rows w \<longrightarrow> world_rows w'"
    proof
      assume wr: "world_rows w"
      show "world_rows w'"
        unfolding world_rows_def
      proof (intro allI impI)
        fix k arch assume "map_of (archetypeBySignature w') k = Some arch"
        from lookup[OF this] show "distinct (entityIds arch) \<and>
          (\<forall>e. e \<in> set (entityIds arch) \<longleftrightarrow> entityArchetype w' e = Some k) \<and>
          (\<forall>e\<in>set (entityIds arch). indexByEntity arch e \<noteq> None)"
        proof
          assume e: "arch = ?a \<and> k = ?sig"
          have "entityArchetype w e' \<noteq> Some ?sig" for e'
            using sh None unfolding world_shape_def by blast
          with e aids show ?thesis by (simp add: w')
        next
          assume "k \<noteq> ?sig \<and> map_of (archetypeBySignature w) k = Some arch"
          with wr have "distinct (entityIds arch) \<and>
            (\<forall>e. e \<in> set (entityIds arch) \<longleftrightarrow> entityArchetype w e = Some k) \<and>
            (\<forall>e\<in>set (entityIds arch). indexByEntity arch e \<noteq> None)"
            unfolding world_rows_def by blast
          then show ?thesis by (simp add: w')
        qed
      qed
    qed
    have ea: "entityArchetype w' = entityArchetype w" by (simp add: w')
    from m_same actors aids None sh' ty' ea m_other rows' ref
    show ?thesis by (intro exI[of _ ?a]) simp
  qed
qed

lemma copyValues_ok:
  assumes sh: "arch_shape rt a" and d: "distinct (map typeId cs)"
  shows "\<exists>vals. copyValues a idx cs out = Inr vals \<and>
           (\<forall>c\<in>set cs. (\<forall>s. map_of (stores a) (typeId c) = Some s \<longrightarrow>
                              (\<exists>v. get_cs s (int idx) = Inr v \<and> vals (typeId c) = Some v)) \<and>
                         (map_of (stores a) (typeId c) = None \<longrightarrow> vals (typeId c) = Some (newInstance c))) \<and>
           (\<forall>k. k \<notin> typeId ` set cs \<longrightarrow> vals k = out k)"
  using d
proof (induction cs arbitrary: out)
  case Nil
  then show ?case by simp
next
  case (Cons c cs)
  from Cons.prems have d': "distinct (map typeId cs)" and nc: "typeId c \<notin> typeId ` set cs" by auto
  obtain v where v: "(case map_of (stores a) (typeId c) of None \<Rightarrow> v = newInstance c
                      | Some s \<Rightarrow> get_cs s (int idx) = Inr v)"
  proof (cases "map_of (stores a) (typeId c)")
    case None
    then show ?thesis using that[of "newInstance c"] by simp
  next
    case (Some s)
    with sh have "store_inv rt s" by (auto simp: arch_shape_def)
    from get_cs_total[OF this, of "int idx"] obtain x where "get_cs s (int idx) = Inr x" by auto
    with Some show ?thesis using that[of x] by simp
  qed
  let ?out1 = "out(typeId c \<mapsto> v)"
  have step: "copyValues a idx (c # cs) out = copyValues a idx cs ?out1"
    using v by (auto split: option.splits)
  from Cons.IH[OF d', of ?out1] obtain vals where
    r: "copyValues a idx cs ?out1 = Inr vals"
       "\<forall>c\<in>set cs. (\<forall>s. map_of (stores a) (typeId c) = Some s \<longrightarrow>
                              (\<exists>v. get_cs s (int idx) = Inr v \<and> vals (typeId c) = Some v)) \<and>
                         (map_of (stores a) (typeId c) = None \<longrightarrow> vals (typeId c) = Some (newInstance c))"
       "\<forall>k. k \<notin> typeId ` set cs \<longrightarrow> vals k = ?out1 k" by blast
  from r(3) nc have vc: "vals (typeId c) = Some v" by simp
  have head: "(\<forall>s. map_of (stores a) (typeId c) = Some s \<longrightarrow>
                              (\<exists>v. get_cs s (int idx) = Inr v \<and> vals (typeId c) = Some v)) \<and>
                         (map_of (stores a) (typeId c) = None \<longrightarrow> vals (typeId c) = Some (newInstance c))"
    using v vc by (auto split: option.splits)
  have other: "\<forall>k. k \<notin> typeId ` set (c # cs) \<longrightarrow> vals k = out k"
    using r(3) by auto
  from step r(1,2) head other show ?case by (intro exI[of _ vals]) simp
qed

lemma foldl_mapValues:
  assumes "distinct (map (typeId \<circ> fst) comps)" "(c, v) \<in> set comps"
  shows "foldl (\<lambda>m (k, v). m(typeId k \<mapsto> v)) m0 comps (typeId c) = Some v"
  using assms
proof (induction comps arbitrary: m0)
  case Nil
  then show ?case by simp
next
  case (Cons p comps)
  obtain k x where p: "p = (k, x)" by (cases p)
  have keep: "typeId c \<notin> (typeId \<circ> fst) ` set xs \<Longrightarrow>
      foldl (\<lambda>m (k, v). m(typeId k \<mapsto> v)) m1 xs (typeId c) = m1 (typeId c)" for xs m1
    by (induction xs arbitrary: m1) (auto split: prod.splits)
  show ?case
  proof (cases "(c, v) \<in> set comps")
    case True
    with Cons show ?thesis by simp
  next
    case False
    with Cons.prems(2) p have e: "k = c" "x = v" by auto
    from Cons.prems(1) p e have "typeId c \<notin> (typeId \<circ> fst) ` set comps" by auto
    from keep[OF this, of "m0(typeId c \<mapsto> v)"] p e show ?thesis
      by (simp del: fun_upd_apply) simp
  qed
qed

lemma world_update_shape:
  assumes sh: "world_shape rt w" and m: "map_of (archetypeBySignature w) ref = Some a"
    and a': "arch_shape rt a'"
  shows "world_shape rt (w\<lparr>archetypeBySignature := AList.update ref a' (archetypeBySignature w)\<rparr>)"
  unfolding world_shape_def
proof (intro conjI allI impI)
  from sh have "distinct (map fst (archetypeBySignature w))" by (simp add: world_shape_def)
  then show "distinct (map fst (archetypeBySignature
      (w\<lparr>archetypeBySignature := AList.update ref a' (archetypeBySignature w)\<rparr>)))"
    by (simp add: distinct_update)
next
  fix k b assume "map_of (archetypeBySignature
      (w\<lparr>archetypeBySignature := AList.update ref a' (archetypeBySignature w)\<rparr>)) k = Some b"
  then have "(k = ref \<and> b = a') \<or> (k \<noteq> ref \<and> map_of (archetypeBySignature w) k = Some b)"
    by (cases "k = ref") (simp_all add: update_conv')
  with a' sh show "arch_shape rt b" unfolding world_shape_def by blast
next
  fix e k assume "entityArchetype
      (w\<lparr>archetypeBySignature := AList.update ref a' (archetypeBySignature w)\<rparr>) e = Some k"
  then have "entityArchetype w e = Some k" by simp
  with sh have "map_of (archetypeBySignature w) k \<noteq> None" unfolding world_shape_def by blast
  then show "map_of (archetypeBySignature
      (w\<lparr>archetypeBySignature := AList.update ref a' (archetypeBySignature w)\<rparr>)) k \<noteq> None"
    by (cases "k = ref") (simp_all add: update_conv')
qed

lemma world_update_typed:
  assumes ty: "world_typed rt U w" and m: "map_of (archetypeBySignature w) ref = Some a"
    and a': "arch_typed a'" and c: "ctors a' = ctors a"
  shows "world_typed rt U (w\<lparr>archetypeBySignature := AList.update ref a' (archetypeBySignature w)\<rparr>)"
  unfolding world_typed_def
proof (intro allI impI)
  fix k b assume "map_of (archetypeBySignature
      (w\<lparr>archetypeBySignature := AList.update ref a' (archetypeBySignature w)\<rparr>)) k = Some b"
  then have "(k = ref \<and> b = a') \<or> (k \<noteq> ref \<and> map_of (archetypeBySignature w) k = Some b)"
    by (cases "k = ref") (simp_all add: update_conv')
  then show "arch_typed b \<and> set (ctors b) \<subseteq> U \<and>
        (\<exists>tmp. k = joinBar (map typeId tmp) \<and> ctors b = sortCtors rt tmp)"
  proof
    assume e: "k = ref \<and> b = a'"
    from ty m have "set (ctors a) \<subseteq> U \<and> (\<exists>tmp. ref = joinBar (map typeId tmp) \<and> ctors a = sortCtors rt tmp)"
      unfolding world_typed_def by blast
    with e a' c show ?thesis by simp
  next
    assume "k \<noteq> ref \<and> map_of (archetypeBySignature w) k = Some b"
    with ty show ?thesis unfolding world_typed_def by blast
  qed
qed

lemma withArchetype_Inr:
  assumes "map_of (archetypeBySignature w) ref = Some a" "f a = Inr a'"
  shows "withArchetype w ref f = Inr (w\<lparr>archetypeBySignature := AList.update ref a' (archetypeBySignature w)\<rparr>)"
  using assms by (simp add: withArchetype_def)

lemma world_directory_shape:
  assumes sh: "world_shape rt w" and m: "map_of (archetypeBySignature w) ref \<noteq> None"
  shows "world_shape rt (w\<lparr>entityArchetype := (entityArchetype w)(e \<mapsto> ref)\<rparr>)"
  using sh m unfolding world_shape_def by (auto simp del: map_of_eq_None_iff)

lemma world_directory_typed:
  "world_typed rt U (w\<lparr>entityArchetype := m\<rparr>) = world_typed rt U w"
  by (simp add: world_typed_def)

lemma world_arch:
  assumes sh: "world_shape rt w" and ty: "world_typed rt U w"
    and m: "map_of (archetypeBySignature w) k = Some a"
  shows "arch_shape rt a" "arch_typed a" "set (ctors a) \<subseteq> U"
    "distinct (map typeId (ctors a))"
proof -
  from sh m show s: "arch_shape rt a" unfolding world_shape_def by blast
  from ty m show t: "arch_typed a" unfolding world_typed_def by blast
  from ty m show "set (ctors a) \<subseteq> U" unfolding world_typed_def by blast
  from s t show "distinct (map typeId (ctors a))" by (simp add: arch_shape_def arch_typed_def)
qed

lemma arch_store:
  assumes sh: "arch_shape rt a" and ty: "arch_typed a" and c: "c \<in> set (ctors a)"
  shows "\<exists>s. map_of (stores a) (typeId c) = Some s \<and> store_inv rt s \<and> schema s = schemaOf c \<and>
              size_cs s = length (entityIds a)"
proof -
  from sh c have "typeId c \<in> fst ` set (stores a)" by (auto simp: arch_shape_def)
  then obtain s where s: "map_of (stores a) (typeId c) = Some s"
    by (metis domD dom_map_of_conv_image_fst)
  with sh have "store_inv rt s \<and> size_cs s = length (entityIds a)" by (auto simp: arch_shape_def)
  moreover from ty c s have "schema s = schemaOf c" by (auto simp: arch_typed_def)
  ultimately show ?thesis using s by blast
qed

lemma moveEntity_ok:
  assumes ok: "rt_ok rt" and sh: "world_shape rt w" and ty: "world_typed rt U w"
    and cur: "map_of (archetypeBySignature w) cur = Some a"
    and tgt: "map_of (archetypeBySignature w) target = Some t"
    and ne: "cur \<noteq> target" and ix: "indexByEntity a e = Some idx"
    and run: "moveEntity rt w e cur target idx overwrite = Inr w'"
  shows "\<exists>t'. world_shape rt w' \<and> world_typed rt U w' \<and>
           entityArchetype w' = (entityArchetype w)(e \<mapsto> target) \<and>
           map_of (archetypeBySignature w') target = Some t' \<and>
           ctors t' = ctors t \<and> typeIds t' = typeIds t \<and>
           indexByEntity t' e = Some (length (entityIds t)) \<and>
           (\<forall>c\<in>set (ctors t). c \<in> set (ctors a) \<longrightarrow> (\<forall>value. overwrite \<noteq> Some (typeId c, value)) \<longrightarrow>
              getComponentAt t' c (length (entityIds t)) = getComponentAt a c idx)"
proof -
  note A = world_arch[OF sh ty cur] and T = world_arch[OF sh ty tgt]
  from A(1) ix have idx: "idx < length (entityIds a)" by (auto simp: arch_shape_def)
  from copyValues_ok[OF A(1) T(4), of idx Map.empty] obtain vals where
    cv: "copyValues a idx (ctors t) Map.empty = Inr vals"
    and cvs: "\<forall>c\<in>set (ctors t). (\<forall>s. map_of (stores a) (typeId c) = Some s \<longrightarrow>
                              (\<exists>v. get_cs s (int idx) = Inr v \<and> vals (typeId c) = Some v)) \<and>
                         (map_of (stores a) (typeId c) = None \<longrightarrow> vals (typeId c) = Some (newInstance c))"
    by blast
  define merged where
    "merged = (case overwrite of None \<Rightarrow> vals | Some (t, value) \<Rightarrow> vals(t \<mapsto> value))"
  have copied: "\<exists>s v. map_of (stores a) (typeId c) = Some s \<and> store_inv rt s \<and>
                  schema s = schemaOf c \<and> get_cs s (int idx) = Inr v \<and> vals (typeId c) = Some v"
    if c: "c \<in> set (ctors t)" "c \<in> set (ctors a)" for c
  proof -
    from arch_store[OF A(1) A(2) c(2)] obtain s where
      s: "map_of (stores a) (typeId c) = Some s" "store_inv rt s" "schema s = schemaOf c" by blast
    from cvs c(1) s(1) obtain v where "get_cs s (int idx) = Inr v" "vals (typeId c) = Some v" by blast
    with s show ?thesis by blast
  qed
  have keep: "merged (typeId c) = vals (typeId c)"
    if "\<forall>value. overwrite \<noteq> Some (typeId c, value)" for c
    using that by (auto simp: merged_def split: option.splits)
  from removeEntity_shape[OF ok A(1) ix] obtain a1 where
    r: "removeEntity rt a e = Inr a1" and sh1: "arch_shape rt a1" and c1: "ctors a1 = ctors a"
    and t1: "typeIds a1 = typeIds a" and k1: "map fst (stores a1) = map fst (stores a)"
    and pw: "\<forall>k st. map_of (stores a) k = Some st \<longrightarrow>
              (\<exists>st'. map_of (stores a1) k = Some st' \<and> swapRemove rt st (int idx) = Inr st')"
    by blast
  from removeEntity_typed[OF ok A(1) A(2) c1 t1 k1 pw idx] have ty1: "arch_typed a1" .
  define w1 where "w1 = w\<lparr>archetypeBySignature := AList.update cur a1 (archetypeBySignature w)\<rparr>"
  have wa1: "withArchetype w cur (\<lambda>a. removeEntity rt a e) = Inr w1"
    unfolding w1_def using cur r by (simp add: withArchetype_def)
  have shw1: "world_shape rt w1" unfolding w1_def by (rule world_update_shape[OF sh cur sh1])
  have tyw1: "world_typed rt U w1" unfolding w1_def by (rule world_update_typed[OF ty cur ty1 c1])
  have tgt1: "map_of (archetypeBySignature w1) target = Some t"
    using tgt ne by (simp add: w1_def map_of_update_other)
  from run cur tgt cv wa1 tgt1 obtain t2 where ad: "addEntity rt t e merged = Inr t2"
    by (cases "addEntity rt t e merged")
       (auto simp: moveEntity_def copyEntityTo_def merged_def withArchetype_def Let_def)
  from addEntity_ok[OF ok T(1) T(2) ad] have
    sh2: "arch_shape rt t2" and ty2: "arch_typed t2"
    and c2: "ctors t2 = ctors t" and i2: "typeIds t2 = typeIds t"
    and m2: "indexByEntity t2 = (indexByEntity t)(e \<mapsto> length (entityIds t))"
    and st2: "\<forall>c\<in>set (ctors t). \<exists>s s'. map_of (stores t) (typeId c) = Some s \<and>
                map_of (stores t2) (typeId c) = Some s' \<and>
                set_cs rt s (int (length (entityIds t))) (valueFor merged c) = Inr s'"
    by blast+
  define w2 where "w2 = w1\<lparr>archetypeBySignature := AList.update target t2 (archetypeBySignature w1)\<rparr>"
  have wa2: "withArchetype w1 target (\<lambda>a. addEntity rt a e merged) = Inr w2"
    unfolding w2_def using tgt1 ad by (simp add: withArchetype_def)
  have shw2: "world_shape rt w2" unfolding w2_def by (rule world_update_shape[OF shw1 tgt1 sh2])
  have tyw2: "world_typed rt U w2" unfolding w2_def by (rule world_update_typed[OF tyw1 tgt1 ty2 c2])
  have tgt2: "map_of (archetypeBySignature w2) target = Some t2"
    by (simp add: w2_def map_of_update_same)
  define w3 where "w3 = w2\<lparr>entityArchetype := (entityArchetype w2)(e \<mapsto> target)\<rparr>"
  have "moveEntity rt w e cur target idx overwrite = Inr w3"
    using cur tgt cv wa1 wa2
    by (simp add: moveEntity_def copyEntityTo_def merged_def w3_def Let_def)
  with run have w3: "w3 = w'" by simp
  have shw3: "world_shape rt w3" unfolding w3_def
    by (rule world_directory_shape[OF shw2]) (simp add: tgt2)
  have tyw3: "world_typed rt U w3" unfolding w3_def using tyw2 by (simp add: world_directory_typed)
  have dir: "entityArchetype w3 = (entityArchetype w)(e \<mapsto> target)"
    by (simp add: w3_def w2_def w1_def)
  have tgt3: "map_of (archetypeBySignature w3) target = Some t2" using tgt2 by (simp add: w3_def)
  have data: "\<forall>c\<in>set (ctors t). c \<in> set (ctors a) \<longrightarrow> (\<forall>value. overwrite \<noteq> Some (typeId c, value)) \<longrightarrow>
              getComponentAt t2 c (length (entityIds t)) = getComponentAt a c idx"
  proof (intro ballI impI)
    fix c assume c: "c \<in> set (ctors t)" and ca: "c \<in> set (ctors a)"
      and no: "\<forall>value. overwrite \<noteq> Some (typeId c, value)"
    from copied[OF c ca] obtain s v where
      s: "map_of (stores a) (typeId c) = Some s" "store_inv rt s" "schema s = schemaOf c"
         "get_cs s (int idx) = Inr v" "vals (typeId c) = Some v" by blast
    from keep[OF no] s(5) have vf: "valueFor merged c = v" by (simp add: valueFor_def)
    from st2 c obtain st st' where
      st: "map_of (stores t) (typeId c) = Some st" "map_of (stores t2) (typeId c) = Some st'"
          "set_cs rt st (int (length (entityIds t))) (valueFor merged c) = Inr st'" by blast
    from arch_store[OF T(1) T(2) c] st(1) have stp: "store_inv rt st" "schema st = schemaOf c" by auto
    from stp(2) s(3) have sch: "schema st = schema s" by simp
    from st(3) vf have run': "set_cs rt st (int (length (entityIds t))) v = Inr st'" by simp
    from set_get_back[OF ok s(2) _ s(4) stp(1) sch _ run']
    have "get_cs st' (int (length (entityIds t))) = Inr v" by simp
    with st(2) s(1) s(4) show "getComponentAt t2 c (length (entityIds t)) = getComponentAt a c idx"
      by (simp add: getComponentAt_def)
  qed
  from m2 have ie: "indexByEntity t2 e = Some (length (entityIds t))" by simp
  from shw3 tyw3 dir tgt3 c2 i2 ie data show ?thesis
    unfolding w3[symmetric] by (intro exI[of _ t2] conjI)
qed

lemma key_differs:
  assumes reg: "registry U" and ty: "world_typed rt U w"
    and m: "map_of (archetypeBySignature w) k = Some a"
    and cs: "set cs \<subseteq> U" and ne: "set cs \<noteq> set (ctors a)"
  shows "joinBar (map typeId (sortCtors rt cs)) \<noteq> k"
proof
  assume e: "joinBar (map typeId (sortCtors rt cs)) = k"
  from ty m obtain tmp where t: "k = joinBar (map typeId tmp)" "ctors a = sortCtors rt tmp"
    and u: "set (ctors a) \<subseteq> U" unfolding world_typed_def by blast
  from t(2) have st: "set tmp = set (ctors a)" by (simp add: set_sortCtors)
  with u have tu: "set tmp \<subseteq> U" by simp
  from cs have su: "set (sortCtors rt cs) \<subseteq> U" by (simp add: set_sortCtors)
  from e t(1) have "joinBar (map typeId (sortCtors rt cs)) = joinBar (map typeId tmp)" by simp
  from registry_signature_inj[OF reg su tu this] have "sortCtors rt cs = tmp" .
  then have "set (sortCtors rt cs) = set tmp" by simp
  with st have "set cs = set (ctors a)" by (simp add: set_sortCtors)
  with ne show False by simp
qed

lemma registry_inj:
  assumes "registry U" "x \<in> U" "y \<in> U" "typeId x = typeId y"
  shows "x = y"
  using assms unfolding registry_def by (meson inj_onD)

lemma getComponent_at:
  assumes sh: "arch_shape rt a"
    and dir: "entityArchetype w e = Some k" and m: "map_of (archetypeBySignature w) k = Some a"
    and ix: "indexByEntity a e = Some idx"
  shows "typeId T \<in> set (typeIds a) \<Longrightarrow>
           \<exists>v. getComponentAt a T idx = Inr v \<and> getComponent w e T = Inr (Some v)"
    and "typeId T \<notin> set (typeIds a) \<Longrightarrow> getComponent w e T = Inr None"
proof -
  assume t: "typeId T \<in> set (typeIds a)"
  from getComponentAt_total[OF sh t, of idx] obtain v where v: "getComponentAt a T idx = Inr v" by blast
  with dir m ix t have "getComponent w e T = Inr (Some v)"
    by (simp add: getComponent_def indexOf_def containsTypeId_def)
  with v show "\<exists>v. getComponentAt a T idx = Inr v \<and> getComponent w e T = Inr (Some v)" by blast
next
  assume "typeId T \<notin> set (typeIds a)"
  with dir m ix show "getComponent w e T = Inr None"
    by (simp add: getComponent_def indexOf_def containsTypeId_def)
qed

lemma addComponent_ok:
  assumes ok: "rt_ok rt" and reg: "registry U" and sh: "world_shape rt w" and ty: "world_typed rt U w"
    and dir: "entityArchetype w e = Some k" and m: "map_of (archetypeBySignature w) k = Some a"
    and ix: "indexByEntity a e = Some idx"
    and CU: "C \<in> U" and new: "C \<notin> set (ctors a)"
    and run: "addComponent rt w e C c = Inr w1"
  shows "\<exists>tk t' n. world_shape rt w1 \<and> world_typed rt U w1 \<and>
           entityArchetype w1 e = Some tk \<and> map_of (archetypeBySignature w1) tk = Some t' \<and>
           set (ctors t') = insert C (set (ctors a)) \<and> indexByEntity t' e = Some n \<and>
           (\<forall>T\<in>set (ctors a). getComponentAt t' T n = getComponentAt a T idx)"
proof -
  note A = world_arch[OF sh ty m]
  have inj: "typeId x \<noteq> typeId C" if "x \<in> set (ctors a)" for x
    using registry_inj[OF reg _ CU, of x] that A(3) new by blast
  then have nex: "\<not> list_ex (\<lambda>x. typeId x = typeId C) (ctors a)" by (simp add: list_ex_iff)
  define cs where "cs = ctors a @ [C]"
  have csU: "set cs \<subseteq> U" using A(3) CU by (simp add: cs_def)
  have "typeId C \<notin> typeId ` set (ctors a)"
  proof
    assume "typeId C \<in> typeId ` set (ctors a)"
    then obtain x where "x \<in> set (ctors a)" "typeId x = typeId C" by force
    with inj show False by blast
  qed
  with A(4) have csd: "distinct (map typeId cs)" by (simp add: cs_def)
  from run dir m nex obtain r0 where "getOrCreateArchetype rt w cs = Inr r0"
    by (cases "getOrCreateArchetype rt w cs")
       (auto simp: addComponent_def copyConstructorList_def cs_def Let_def)
  then obtain tk w0 where g: "getOrCreateArchetype rt w cs = Inr (tk, w0)" by (cases r0) simp
  from getOrCreateArchetype_ok[OF ok reg sh ty csU csd g] obtain t where
    t: "map_of (archetypeBySignature w0) tk = Some t" and ct: "ctors t = sortCtors rt (sortCtors rt cs)"
    and sh0: "world_shape rt w0" and ty0: "world_typed rt U w0"
    and dir0: "entityArchetype w0 = entityArchetype w"
    and oth: "\<forall>k. k \<noteq> tk \<longrightarrow> map_of (archetypeBySignature w0) k = map_of (archetypeBySignature w) k"
    by blast
  have tkd: "tk = joinBar (map typeId (sortCtors rt cs))" by (rule getOrCreateArchetype_ref[OF g])
  have "set cs \<noteq> set (ctors a)" using new by (auto simp: cs_def)
  from key_differs[OF reg ty m csU this] tkd have ne: "k \<noteq> tk" by simp
  with oth m have m0: "map_of (archetypeBySignature w0) k = Some a" by simp
  from ct have sct: "set (ctors t) = insert C (set (ctors a))" by (simp add: set_sortCtors cs_def)
  from world_arch[OF sh0 ty0 t] have tU: "set (ctors t) \<subseteq> U" by simp
  from run dir m nex g m0 ix have mv: "moveEntity rt w0 e k tk idx (Some (typeId C, c)) = Inr w1"
    by (simp add: addComponent_def copyConstructorList_def cs_def indexOf_def Let_def)
  from moveEntity_ok[OF ok sh0 ty0 m0 t ne ix mv] obtain t' where
    r: "world_shape rt w1" "world_typed rt U w1"
       "entityArchetype w1 = (entityArchetype w0)(e \<mapsto> tk)"
       "map_of (archetypeBySignature w1) tk = Some t'" "ctors t' = ctors t"
       "indexByEntity t' e = Some (length (entityIds t))"
    and data: "\<forall>x\<in>set (ctors t). x \<in> set (ctors a) \<longrightarrow> (\<forall>y. Some (typeId C, c) \<noteq> Some (typeId x, y)) \<longrightarrow>
              getComponentAt t' x (length (entityIds t)) = getComponentAt a x idx"
    by blast
  have d2: "\<forall>T\<in>set (ctors a). getComponentAt t' T (length (entityIds t)) = getComponentAt a T idx"
  proof
    fix T assume T: "T \<in> set (ctors a)"
    with sct have "T \<in> set (ctors t)" by simp
    moreover from inj[OF T] have "\<forall>y. Some (typeId C, c) \<noteq> Some (typeId T, y)" by auto
    ultimately show "getComponentAt t' T (length (entityIds t)) = getComponentAt a T idx"
      using data T by blast
  qed
  from r(3) have d1: "entityArchetype w1 e = Some tk" by simp
  from r(5) sct have s1: "set (ctors t') = insert C (set (ctors a))" by simp
  from r(1,2) d1 r(4) s1 r(6) d2 show ?thesis
    by (intro exI[of _ tk] exI[of _ t'] exI[of _ "length (entityIds t)"] conjI)
qed

lemma removeComponent_ok:
  assumes ok: "rt_ok rt" and reg: "registry U" and sh: "world_shape rt w" and ty: "world_typed rt U w"
    and dir: "entityArchetype w e = Some k" and m: "map_of (archetypeBySignature w) k = Some a"
    and ix: "indexByEntity a e = Some idx"
    and CU: "C \<in> U" and old: "C \<in> set (ctors a)"
    and run: "removeComponent rt w e C = Inr w1"
  shows "\<exists>tk t' n. world_shape rt w1 \<and> world_typed rt U w1 \<and>
           entityArchetype w1 e = Some tk \<and> map_of (archetypeBySignature w1) tk = Some t' \<and>
           set (ctors t') = set (ctors a) - {C} \<and> indexByEntity t' e = Some n \<and>
           (\<forall>T\<in>set (ctors a) - {C}. getComponentAt t' T n = getComponentAt a T idx)"
proof -
  note A = world_arch[OF sh ty m]
  have inj: "typeId x \<noteq> typeId C" if "x \<in> set (ctors a)" "x \<noteq> C" for x
    using registry_inj[OF reg _ CU, of x] that A(3) by blast
  from A(1) old have has: "containsTypeId a (typeId C)"
    by (auto simp: containsTypeId_def arch_shape_def)
  define cs where "cs = filter (\<lambda>x. typeId x \<noteq> typeId C) (ctors a)"
  have scs: "set cs = set (ctors a) - {C}" using inj by (auto simp: cs_def)
  have csU: "set cs \<subseteq> U" using A(3) scs by auto
  have csd: "distinct (map typeId cs)" using A(4) by (simp add: cs_def distinct_map_filter)
  from run dir m has obtain r0 where "getOrCreateArchetype rt w cs = Inr r0"
    by (cases "getOrCreateArchetype rt w cs")
       (auto simp: removeComponent_def copyConstructorList_def cs_def Let_def)
  then obtain tk w0 where g: "getOrCreateArchetype rt w cs = Inr (tk, w0)" by (cases r0) simp
  from getOrCreateArchetype_ok[OF ok reg sh ty csU csd g] obtain t where
    t: "map_of (archetypeBySignature w0) tk = Some t" and ct: "ctors t = sortCtors rt (sortCtors rt cs)"
    and sh0: "world_shape rt w0" and ty0: "world_typed rt U w0"
    and dir0: "entityArchetype w0 = entityArchetype w"
    and oth: "\<forall>k. k \<noteq> tk \<longrightarrow> map_of (archetypeBySignature w0) k = map_of (archetypeBySignature w) k"
    by blast
  have tkd: "tk = joinBar (map typeId (sortCtors rt cs))" by (rule getOrCreateArchetype_ref[OF g])
  have "set cs \<noteq> set (ctors a)" using old scs by auto
  from key_differs[OF reg ty m csU this] tkd have ne: "k \<noteq> tk" by simp
  with oth m have m0: "map_of (archetypeBySignature w0) k = Some a" by simp
  from ct scs have sct: "set (ctors t) = set (ctors a) - {C}" by (simp add: set_sortCtors)
  from run dir m has g ix have mv: "moveEntity rt w0 e k tk idx None = Inr w1"
    by (simp add: removeComponent_def copyConstructorList_def cs_def indexOf_def Let_def)
  from moveEntity_ok[OF ok sh0 ty0 m0 t ne ix mv] obtain t' where
    r: "world_shape rt w1" "world_typed rt U w1"
       "entityArchetype w1 = (entityArchetype w0)(e \<mapsto> tk)"
       "map_of (archetypeBySignature w1) tk = Some t'" "ctors t' = ctors t"
       "indexByEntity t' e = Some (length (entityIds t))"
    and data: "\<forall>x\<in>set (ctors t). x \<in> set (ctors a) \<longrightarrow> (\<forall>y. None \<noteq> Some (typeId x, y)) \<longrightarrow>
              getComponentAt t' x (length (entityIds t)) = getComponentAt a x idx"
    by blast
  have d2: "\<forall>T\<in>set (ctors a) - {C}. getComponentAt t' T (length (entityIds t)) = getComponentAt a T idx"
    using data sct by simp
  from r(3) have d1: "entityArchetype w1 e = Some tk" by simp
  from r(5) sct have s1: "set (ctors t') = set (ctors a) - {C}" by simp
  from r(1,2) d1 r(4) s1 r(6) d2 show ?thesis
    by (intro exI[of _ tk] exI[of _ t'] exI[of _ "length (entityIds t)"] conjI)
qed

lemma world_rows_add:
  assumes wr: "world_rows w" and fresh: "entityArchetype w e = None"
    and m: "map_of (archetypeBySignature w) ref = Some a"
    and ids: "entityIds a1 = entityIds a @ [e]"
    and ix: "indexByEntity a1 = (indexByEntity a)(e \<mapsto> n)"
  shows "world_rows (w\<lparr>archetypeBySignature := AList.update ref a1 (archetypeBySignature w),
                       entityArchetype := (entityArchetype w)(e \<mapsto> ref)\<rparr>)"
  unfolding world_rows_def
proof (intro allI impI)
  fix k b
  assume "map_of (archetypeBySignature (w\<lparr>archetypeBySignature := AList.update ref a1 (archetypeBySignature w),
                       entityArchetype := (entityArchetype w)(e \<mapsto> ref)\<rparr>)) k = Some b"
  then have c: "(k = ref \<and> b = a1) \<or> (k \<noteq> ref \<and> map_of (archetypeBySignature w) k = Some b)"
    by (cases "k = ref") (simp_all add: update_conv')
  have nowhere: "e \<notin> set (entityIds x)" if "map_of (archetypeBySignature w) k' = Some x" for k' x
    using wr that fresh unfolding world_rows_def by (metis option.distinct(1))
  from c show "distinct (entityIds b) \<and>
        (\<forall>x. x \<in> set (entityIds b) \<longleftrightarrow>
           entityArchetype (w\<lparr>archetypeBySignature := AList.update ref a1 (archetypeBySignature w),
                       entityArchetype := (entityArchetype w)(e \<mapsto> ref)\<rparr>) x = Some k) \<and>
        (\<forall>x\<in>set (entityIds b). indexByEntity b x \<noteq> None)"
  proof
    assume r: "k = ref \<and> b = a1"
    from wr m have A: "distinct (entityIds a)" "\<forall>x. x \<in> set (entityIds a) \<longleftrightarrow> entityArchetype w x = Some ref"
      "\<forall>x\<in>set (entityIds a). indexByEntity a x \<noteq> None"
      unfolding world_rows_def by blast+
    from nowhere[OF m] A(1) ids have 1: "distinct (entityIds a1)" by simp
    from A(2) ids have 2: "\<forall>x. x \<in> set (entityIds a1) \<longleftrightarrow> ((entityArchetype w)(e \<mapsto> ref)) x = Some ref"
      by auto
    from A(3) ids ix have 3: "\<forall>x\<in>set (entityIds a1). indexByEntity a1 x \<noteq> None" by auto
    from r 1 2 3 show ?thesis by simp
  next
    assume r: "k \<noteq> ref \<and> map_of (archetypeBySignature w) k = Some b"
    with wr have B: "distinct (entityIds b)" "\<forall>x. x \<in> set (entityIds b) \<longleftrightarrow> entityArchetype w x = Some k"
      "\<forall>x\<in>set (entityIds b). indexByEntity b x \<noteq> None"
      unfolding world_rows_def by blast+
    from B(2) r fresh have 2: "\<forall>x. x \<in> set (entityIds b) \<longleftrightarrow> ((entityArchetype w)(e \<mapsto> ref)) x = Some k"
      by auto
    from B(1) 2 B(3) show ?thesis by simp
  qed
qed

lemma addEntityWithComponents_ok:
  assumes ok: "rt_ok rt" and reg: "registry U" and sh: "world_shape rt w" and ty: "world_typed rt U w"
    and cs: "fst ` set comps \<subseteq> U" and d: "distinct (map (typeId \<circ> fst) comps)"
    and run: "addEntityWithComponents rt w e comps = Inr w'"
  shows "\<exists>ref a' n. world_shape rt w' \<and> world_typed rt U w' \<and>
           entityArchetype w' = (entityArchetype w)(e \<mapsto> ref) \<and>
           map_of (archetypeBySignature w') ref = Some a' \<and>
           set (ctors a') = fst ` set comps \<and> indexByEntity a' e = Some n \<and>
           (world_rows w \<and> entityArchetype w e = None \<longrightarrow> world_rows w')"
proof -
  define cl where "cl = map fst comps"
  have clU: "set cl \<subseteq> U" using cs by (simp add: cl_def)
  have cld: "distinct (map typeId cl)" using d by (simp add: cl_def)
  from run obtain r0 where "getOrCreateArchetype rt w cl = Inr r0"
    by (cases "getOrCreateArchetype rt w cl") (auto simp: addEntityWithComponents_def cl_def)
  then obtain ref w0 where g: "getOrCreateArchetype rt w cl = Inr (ref, w0)" by (cases r0) simp
  from getOrCreateArchetype_ok[OF ok reg sh ty clU cld g] obtain a where
    a: "map_of (archetypeBySignature w0) ref = Some a" and ca: "ctors a = sortCtors rt (sortCtors rt cl)"
    and sh0: "world_shape rt w0" and ty0: "world_typed rt U w0"
    and dir0: "entityArchetype w0 = entityArchetype w"
    and wr0: "world_rows w \<longrightarrow> world_rows w0"
    by blast
  note A = world_arch[OF sh0 ty0 a]
  from ca have sca: "set (ctors a) = fst ` set comps" by (simp add: set_sortCtors cl_def)
  define mv where "mv = foldl (\<lambda>m (k, v). m(typeId k \<mapsto> v)) Map.empty comps"
  from run g a obtain a1 where ad: "addEntity rt a e mv = Inr a1"
    by (cases "addEntity rt a e mv")
       (auto simp: addEntityWithComponents_def cl_def mv_def withArchetype_def Let_def)
  from addEntity_ok[OF ok A(1) A(2) ad] have
    sh1: "arch_shape rt a1" and ty1: "arch_typed a1"
    and c1: "ctors a1 = ctors a" and ids1: "entityIds a1 = entityIds a @ [e]"
    and m1: "indexByEntity a1 = (indexByEntity a)(e \<mapsto> length (entityIds a))"
    by blast+
  define w1 where "w1 = w0\<lparr>archetypeBySignature := AList.update ref a1 (archetypeBySignature w0)\<rparr>"
  define w2 where "w2 = w1\<lparr>entityArchetype := (entityArchetype w1)(e \<mapsto> ref)\<rparr>"
  have wa: "withArchetype w0 ref (\<lambda>a. addEntity rt a e mv) = Inr w1"
    unfolding w1_def using a ad by (simp add: withArchetype_def)
  have shw1: "world_shape rt w1" unfolding w1_def by (rule world_update_shape[OF sh0 a sh1])
  have tyw1: "world_typed rt U w1" unfolding w1_def by (rule world_update_typed[OF ty0 a ty1 c1])
  have r1: "map_of (archetypeBySignature w1) ref = Some a1" by (simp add: w1_def map_of_update_same)
  have "addEntityWithComponents rt w e comps = Inr w2"
    using g wa by (simp add: addEntityWithComponents_def cl_def mv_def w2_def Let_def)
  with run have w2: "w2 = w'" by simp
  have shw2: "world_shape rt w2" unfolding w2_def
    by (rule world_directory_shape[OF shw1]) (simp add: r1)
  have tyw2: "world_typed rt U w2" unfolding w2_def using tyw1 by (simp add: world_directory_typed)
  have dir: "entityArchetype w2 = (entityArchetype w)(e \<mapsto> ref)" by (simp add: w2_def w1_def dir0)
  have r2: "map_of (archetypeBySignature w2) ref = Some a1" using r1 by (simp add: w2_def)
  from c1 sca have s2: "set (ctors a1) = fst ` set comps" by simp
  from m1 have i2: "indexByEntity a1 e = Some (length (entityIds a))" by simp
  have rows: "world_rows w \<and> entityArchetype w e = None \<longrightarrow> world_rows w2"
  proof
    assume h: "world_rows w \<and> entityArchetype w e = None"
    with wr0 dir0 have "world_rows w0" "entityArchetype w0 e = None" by simp_all
    from world_rows_add[OF this a ids1 m1] show "world_rows w2" by (simp add: w2_def w1_def)
  qed
  from shw2 tyw2 dir r2 s2 i2 rows show ?thesis
    unfolding w2[symmetric]
    by (intro exI[of _ ref] exI[of _ a1] exI[of _ "length (entityIds a)"] conjI)
qed

lemma newWorld_ok: "world_shape rt newWorld" "world_typed rt U newWorld" "world_rows newWorld"
  by (simp_all add: world_shape_def world_typed_def world_rows_def newWorld_def)

lemma world_directory_delete:
  assumes sh: "world_shape rt w"
  shows "world_shape rt (w\<lparr>entityArchetype := (entityArchetype w)(e := None)\<rparr>)"
  using sh unfolding world_shape_def by (auto simp del: map_of_eq_None_iff)

lemma destroyEntity_ok:
  assumes ok: "rt_ok rt" and sh: "world_shape rt w" and wr: "world_rows w"
    and dir: "entityArchetype w e \<noteq> None"
  shows "\<exists>w'. destroyEntity rt w e = Inr w' \<and> (\<forall>T. getComponent w' e T = Inr None) \<and>
           (\<forall>cs. \<exists>out. query w' cs = Inr out \<and> e \<notin> fst ` set out)"
proof -
  from dir obtain k where k: "entityArchetype w e = Some k" by blast
  with sh obtain a where a: "map_of (archetypeBySignature w) k = Some a"
    unfolding world_shape_def by blast
  from sh a have sha: "arch_shape rt a" unfolding world_shape_def by blast
  from wr a have R: "distinct (entityIds a)" "\<forall>x. x \<in> set (entityIds a) \<longleftrightarrow> entityArchetype w x = Some k"
    "\<forall>x\<in>set (entityIds a). indexByEntity a x \<noteq> None"
    unfolding world_rows_def by blast+
  from R(2) k have mem: "e \<in> set (entityIds a)" by simp
  with R(3) obtain idx where ix: "indexByEntity a e = Some idx" by blast
  with sha have idx: "idx < length (entityIds a)" "entityIds a ! idx = e"
    by (auto simp: arch_shape_def)
  from removeEntity_shape[OF ok sha ix] obtain a1 where
    r: "removeEntity rt a e = Inr a1" and sh1: "arch_shape rt a1"
    and ids1: "entityIds a1 = butlast ((entityIds a)[idx := entityIds a ! (length (entityIds a) - 1)])"
    by blast
  from set_swap_butlast(1)[OF R(1) idx(1)] ids1 idx(2)
  have gone: "e \<notin> set (entityIds a1)" by simp
  define w1 where "w1 = w\<lparr>archetypeBySignature := AList.update k a1 (archetypeBySignature w)\<rparr>"
  define w2 where "w2 = w1\<lparr>entityArchetype := (entityArchetype w1)(e := None)\<rparr>"
  have wa: "withArchetype w k (\<lambda>a. removeEntity rt a e) = Inr w1"
    unfolding w1_def using a r by (simp add: withArchetype_def)
  have run: "destroyEntity rt w e = Inr w2"
    using k wa by (simp add: destroyEntity_def w2_def)
  have shw1: "world_shape rt w1" unfolding w1_def by (rule world_update_shape[OF sh a sh1])
  have shw2: "world_shape rt w2" unfolding w2_def by (rule world_directory_delete[OF shw1])
  have get: "\<forall>T. getComponent w2 e T = Inr None" by (simp add: getComponent_def w2_def)
  have absent: "e \<notin> set (entityIds b)" if b: "b \<in> set (map snd (archetypeBySignature w2))" for b
  proof -
    from b obtain k' where kb: "(k', b) \<in> set (archetypeBySignature w2)" by auto
    from shw2 have "distinct (map fst (archetypeBySignature w2))" by (simp add: world_shape_def)
    from map_of_is_SomeI[OF this kb] have "map_of (AList.update k a1 (archetypeBySignature w)) k' = Some b"
      by (simp add: w2_def w1_def)
    then have c: "(k' = k \<and> b = a1) \<or> (k' \<noteq> k \<and> map_of (archetypeBySignature w) k' = Some b)"
      by (cases "k' = k") (simp_all add: update_conv')
    then show ?thesis
    proof
      assume "k' = k \<and> b = a1"
      with gone show ?thesis by simp
    next
      assume o: "k' \<noteq> k \<and> map_of (archetypeBySignature w) k' = Some b"
      with wr have "\<forall>x. x \<in> set (entityIds b) \<longleftrightarrow> entityArchetype w x = Some k'"
        unfolding world_rows_def by blast
      with k o show ?thesis by auto
    qed
  qed
  have q: "\<forall>cs. \<exists>out. query w2 cs = Inr out \<and> e \<notin> fst ` set out"
  proof
    fix cs
    from query_ok[OF shw2, of cs] obtain outs where
      o: "query w2 cs = Inr (concat outs)"
         "map fst (concat outs) = concat (map entityIds (matching cs w2))" by blast
    have "e \<notin> set (concat (map entityIds (matching cs w2)))"
      using absent by (auto simp: matching_def)
    with o(2) have "e \<notin> set (map fst (concat outs))" by simp
    then have "e \<notin> fst ` set (concat outs)" by simp
    with o(1) show "\<exists>out. query w2 cs = Inr out \<and> e \<notin> fst ` set out" by blast
  qed
  from run get q show ?thesis by (intro exI[of _ w2] conjI)
qed

lemma registry_example: "registry {Position, Velocity, Health}"
  by (simp add: registry_def Position_def Velocity_def Health_def)

lemma onePosition_runs: "\<not> isl onePosition"
  by code_simp

lemma onePosition_ok:
  "\<exists>w. onePosition = Inr w \<and> world_shape testRuntime w \<and> world_rows w \<and>
        world_typed testRuntime {Position, Velocity, Health} w \<and> entityArchetype w 1 \<noteq> None"
proof -
  from returns[OF onePosition_runs] obtain w' where
    run: "addEntityWithComponents testRuntime newWorld 1 [(Position, position 1 1)] = Inr w'"
    unfolding onePosition_def by blast
  have cs: "fst ` set [(Position, position 1 1)] \<subseteq> {Position, Velocity, Health}" by simp
  have d: "distinct (map (typeId \<circ> fst) [(Position, position 1 1)])" by simp
  from addEntityWithComponents_ok[OF testRuntime_ok registry_example newWorld_ok(1) newWorld_ok(2) cs d run]
  obtain ref where
    r: "world_shape testRuntime w'" "world_typed testRuntime {Position, Velocity, Health} w'"
       "entityArchetype w' = (entityArchetype newWorld)(1 \<mapsto> ref)"
       "world_rows newWorld \<and> entityArchetype newWorld 1 = None \<longrightarrow> world_rows w'" by blast
  have "entityArchetype newWorld 1 = None" by (simp add: newWorld_def)
  with r(4) newWorld_ok(3) have wr: "world_rows w'" by simp
  from r(3) have "entityArchetype w' 1 \<noteq> None" by simp
  with run r(1,2) wr show ?thesis unfolding onePosition_def by (intro exI[of _ w'] conjI)
qed

text \<open>
  C7 (amended). In a world of well-formed archetypes in which every entity id occupies one row, in
  the archetype recorded for it, destroying a present entity does not throw, and afterwards
  \<^verbatim>\<open>getComponent\<close> reports absence for every component type and no query, for any list
  of component types, returns a result for that entity.
\<close>

theorem destroyed_entity_invisible:
  assumes "rt_ok rt" and "world_shape rt w" and "world_rows w" and "entityArchetype w e \<noteq> None"
  shows "\<exists>w'. destroyEntity rt w e = Inr w' \<and> (\<forall>T. getComponent w' e T = Inr None) \<and>
           (\<forall>cs. \<exists>out. query w' cs = Inr out \<and> e \<notin> fst ` set out)"
  using assms by (rule destroyEntity_ok)

theorem destroyed_entity_invisible_witness:
  "rt_ok testRuntime \<and>
   (\<exists>w. onePosition = Inr w \<and> world_shape testRuntime w \<and> world_rows w \<and>
      entityArchetype w 1 \<noteq> None \<and>
      (\<exists>w'. destroyEntity testRuntime w 1 = Inr w' \<and> (\<forall>T. getComponent w' 1 T = Inr None) \<and>
           (\<forall>cs. \<exists>out. query w' cs = Inr out \<and> 1 \<notin> fst ` set out)))"
proof -
  from onePosition_ok obtain w where w: "onePosition = Inr w" "world_shape testRuntime w"
    "world_rows w" "entityArchetype w 1 \<noteq> None" by blast
  note T = destroyed_entity_invisible[OF testRuntime_ok w(2) w(3) w(4)]
  from w T have "\<exists>w. onePosition = Inr w \<and> world_shape testRuntime w \<and> world_rows w \<and>
      entityArchetype w 1 \<noteq> None \<and>
      (\<exists>w'. destroyEntity testRuntime w 1 = Inr w' \<and> (\<forall>T. getComponent w' 1 T = Inr None) \<and>
           (\<forall>cs. \<exists>out. query w' cs = Inr out \<and> 1 \<notin> fst ` set out))"
    by - (rule exI[of _ w], (rule conjI, assumption)+, assumption)
  with testRuntime_ok show ?thesis by (rule conjI)
qed

text \<open>
  The entity 1 given its components twice occupies two rows; after it is destroyed
  \<^verbatim>\<open>getComponent\<close> reports absence, and the query for positions still returns it.
\<close>

theorem destroyed_entity_counterexample:
  "map_sum id (entitiesOf ''Position'') addedTwiceWorld = Inr [1, 1] \<and>
   andThen addedTwiceDestroyed (componentOf 1 Position) = Inr None \<and>
   andThen addedTwiceDestroyed (queryOf [Position]) = Inr [(1, [position 1 1])]"
  by code_simp



lemma rows_distinct:
  assumes "distinct (map fst al)"
    and "\<forall>(k, a)\<in>set al. distinct (entityIds a) \<and> (\<forall>e. e \<in> set (entityIds a) \<longleftrightarrow> dir e = Some k)"
  shows "distinct (concat (map (entityIds \<circ> snd) al)) \<and>
         set (concat (map (entityIds \<circ> snd) al)) = {e. \<exists>k\<in>fst ` set al. dir e = Some k}"
  using assms
proof (induction al)
  case Nil
  then show ?case by simp
next
  case (Cons p al)
  obtain k a where p: "p = (k, a)" by (cases p)
  from Cons.prems p have d: "distinct (map fst al)" and nk: "k \<notin> fst ` set al"
    and da: "distinct (entityIds a)" and ma: "\<forall>e. e \<in> set (entityIds a) \<longleftrightarrow> dir e = Some k"
    and rest: "\<forall>(k, a)\<in>set al. distinct (entityIds a) \<and> (\<forall>e. e \<in> set (entityIds a) \<longleftrightarrow> dir e = Some k)"
    by auto
  from Cons.IH[OF d rest] have
    IH: "distinct (concat (map (entityIds \<circ> snd) al))"
        "set (concat (map (entityIds \<circ> snd) al)) = {e. \<exists>k\<in>fst ` set al. dir e = Some k}" by blast+
  have disj: "set (entityIds a) \<inter> set (concat (map (entityIds \<circ> snd) al)) = {}"
  proof (rule ccontr)
    assume "set (entityIds a) \<inter> set (concat (map (entityIds \<circ> snd) al)) \<noteq> {}"
    then obtain e where e: "e \<in> set (entityIds a)" "e \<in> set (concat (map (entityIds \<circ> snd) al))" by blast
    from e(1) ma have "dir e = Some k" by blast
    moreover from e(2) IH(2) obtain k' where "k' \<in> fst ` set al" "dir e = Some k'" by blast
    ultimately show False using nk by auto
  qed
  have s: "set (concat (map (entityIds \<circ> snd) (p # al))) = {e. \<exists>k\<in>fst ` set (p # al). dir e = Some k}"
    using IH(2) ma p by auto
  from da IH(1) disj have "distinct (concat (map (entityIds \<circ> snd) (p # al)))" by (simp add: p)
  with s show ?case by blast
qed

lemma world_rows_entries:
  assumes sh: "world_shape rt w" and wr: "world_rows w"
  shows "\<forall>(k, a)\<in>set (filter P (archetypeBySignature w)).
           distinct (entityIds a) \<and> (\<forall>e. e \<in> set (entityIds a) \<longleftrightarrow> entityArchetype w e = Some k)"
proof (clarify)
  fix k a assume "(k, a) \<in> set (filter P (archetypeBySignature w))"
  then have m: "(k, a) \<in> set (archetypeBySignature w)" by simp
  from sh have "distinct (map fst (archetypeBySignature w))" by (simp add: world_shape_def)
  from map_of_is_SomeI[OF this m] wr
  show "distinct (entityIds a) \<and> (\<forall>e. e \<in> set (entityIds a) \<longleftrightarrow> entityArchetype w e = Some k)"
    unfolding world_rows_def by blast
qed

lemma matching_entities:
  assumes sh: "world_shape rt w" and wr: "world_rows w"
  shows "distinct (concat (map entityIds (matching cs w)))"
    and "set (concat (map entityIds (matching cs w))) =
           {e. \<exists>k a. entityArchetype w e = Some k \<and> map_of (archetypeBySignature w) k = Some a \<and>
                      set (map typeId cs) \<subseteq> set (typeIds a)}"
proof -
  let ?P = "\<lambda>p. set (map typeId cs) \<subseteq> set (typeIds (snd p))"
  let ?al = "filter ?P (archetypeBySignature w)"
  from sh have d0: "distinct (map fst (archetypeBySignature w))" by (simp add: world_shape_def)
  then have d: "distinct (map fst ?al)" by (rule distinct_map_filter)
  have m: "matching cs w = map snd ?al" by (simp add: matching_def filter_map comp_def)
  then have c: "concat (map entityIds (matching cs w)) = concat (map (entityIds \<circ> snd) ?al)" by simp
  note R = rows_distinct[OF d world_rows_entries[OF sh wr, of ?P]]
  from R show "distinct (concat (map entityIds (matching cs w)))" unfolding c by blast
  have "{e. \<exists>k\<in>fst ` set ?al. entityArchetype w e = Some k} =
        {e. \<exists>k a. entityArchetype w e = Some k \<and> map_of (archetypeBySignature w) k = Some a \<and>
                      set (map typeId cs) \<subseteq> set (typeIds a)}" (is "?A = ?B")
  proof (rule set_eqI)
    fix e
    show "e \<in> ?A \<longleftrightarrow> e \<in> ?B"
    proof
      assume "e \<in> ?A"
      then obtain k where k: "k \<in> fst ` set ?al" "entityArchetype w e = Some k" by blast
      from k(1) obtain a where ka: "(k, a) \<in> set ?al" by force
      then have "(k, a) \<in> set (archetypeBySignature w)" "set (map typeId cs) \<subseteq> set (typeIds a)"
        by simp_all
      with map_of_is_SomeI[OF d0] k(2) show "e \<in> ?B" by blast
    next
      assume "e \<in> ?B"
      then obtain k a where e: "entityArchetype w e = Some k"
        and a: "map_of (archetypeBySignature w) k = Some a"
        and s: "set (map typeId cs) \<subseteq> set (typeIds a)" by blast
      from a have "(k, a) \<in> set (archetypeBySignature w)" by (rule map_of_SomeD)
      with s have "(k, a) \<in> set ?al" by simp
      then have "k \<in> fst ` set ?al" by force
      with e show "e \<in> ?A" by blast
    qed
  qed
  with R show "set (concat (map entityIds (matching cs w))) =
           {e. \<exists>k a. entityArchetype w e = Some k \<and> map_of (archetypeBySignature w) k = Some a \<and>
                      set (map typeId cs) \<subseteq> set (typeIds a)}" unfolding c by simp
qed

lemma matching_no_types: "matching [] w = map snd (archetypeBySignature w)"
  by (simp add: matching_def)

lemma world_entities:
  assumes sh: "world_shape rt w" and wr: "world_rows w"
  shows "distinct (concat (map entityIds (map snd (archetypeBySignature w))))"
    and "set (concat (map entityIds (map snd (archetypeBySignature w)))) = {e. entityArchetype w e \<noteq> None}"
proof -
  from matching_entities(1)[OF sh wr, of "[]"]
  show "distinct (concat (map entityIds (map snd (archetypeBySignature w))))"
    by (simp only: matching_no_types)
  have "{e. \<exists>k a. entityArchetype w e = Some k \<and> map_of (archetypeBySignature w) k = Some a \<and>
                      set (map typeId []) \<subseteq> set (typeIds a)} = {e. entityArchetype w e \<noteq> None}"
  proof (intro set_eqI iffI; clarify)
    fix e k assume "entityArchetype w e = Some k"
    with sh obtain a where "map_of (archetypeBySignature w) k = Some a"
      unfolding world_shape_def by blast
    with \<open>entityArchetype w e = Some k\<close>
    show "\<exists>k a. entityArchetype w e = Some k \<and> map_of (archetypeBySignature w) k = Some a \<and>
                      set (map typeId []) \<subseteq> set (typeIds a)" by simp
  qed simp
  with matching_entities(2)[OF sh wr, of "[]"]
  show "set (concat (map entityIds (map snd (archetypeBySignature w)))) = {e. entityArchetype w e \<noteq> None}"
    by (simp only: matching_no_types)
qed

lemma query_no_types:
  "query w [] =
     Inr (map (\<lambda>e. (e, [])) (concat (map entityIds (map snd (archetypeBySignature w)))))"
  by (simp add: query_def queryArchetypes_no_types)

text \<open>
  C9 (amended). In a world of well-formed archetypes in which every entity id occupies one row,
  in the archetype recorded for it, \<^verbatim>\<open>query\<close> with no component types does not throw and
  returns the entities of all archetypes in order, each with the empty tuple: exactly one
  result for every entity that has an archetype recorded (it was given components and was not
  destroyed), and no result for any other.
\<close>

theorem query_without_types:
  assumes "world_shape rt w" and "world_rows w"
  shows "\<exists>out. query w [] = Inr out \<and>
           out = map (\<lambda>e. (e, [])) (concat (map entityIds (map snd (archetypeBySignature w)))) \<and>
           distinct (map fst out) \<and>
           set (map fst out) = {e. entityArchetype w e \<noteq> None} \<and>
           list_all (\<lambda>r. snd r = []) out"
proof -
  let ?es = "concat (map entityIds (map snd (archetypeBySignature w)))"
  let ?out = "map (\<lambda>e. (e, [])) ?es"
  have f: "map fst ?out = ?es" by (simp add: comp_def)
  note E = world_entities[OF assms]
  have "distinct (map fst ?out)" unfolding f by (rule E(1))
  moreover have "set (map fst ?out) = {e. entityArchetype w e \<noteq> None}" unfolding f by (rule E(2))
  moreover have "list_all (\<lambda>r. snd r = []) ?out" by (simp add: list_all_iff)
  ultimately show ?thesis using query_no_types[of w] by (intro exI[of _ ?out] conjI) simp_all
qed

lemma example_ids:
  "typeId Position \<noteq> typeId Velocity" "typeId Position \<noteq> typeId Health"
  "typeId Velocity \<noteq> typeId Health"
  by (simp_all add: Position_def Velocity_def Health_def)

lemma add_example:
  assumes sh: "world_shape testRuntime w" and ty: "world_typed testRuntime {Position, Velocity, Health} w"
    and wr: "world_rows w" and fresh: "entityArchetype w e = None"
    and cs: "fst ` set comps \<subseteq> {Position, Velocity, Health}"
    and d: "distinct (map (typeId \<circ> fst) comps)"
    and run: "addEntityWithComponents testRuntime w e comps = Inr w'"
  shows "world_shape testRuntime w'" "world_typed testRuntime {Position, Velocity, Health} w'"
    "world_rows w'" "\<exists>ref. entityArchetype w' = (entityArchetype w)(e \<mapsto> ref)"
proof -
  from addEntityWithComponents_ok[OF testRuntime_ok registry_example sh ty cs d run]
  obtain ref where r: "world_shape testRuntime w'" "world_typed testRuntime {Position, Velocity, Health} w'"
    "entityArchetype w' = (entityArchetype w)(e \<mapsto> ref)"
    "world_rows w \<and> entityArchetype w e = None \<longrightarrow> world_rows w'" by blast
  from r(1) show "world_shape testRuntime w'" .
  from r(2) show "world_typed testRuntime {Position, Velocity, Health} w'" .
  from r(4) wr fresh show "world_rows w'" by blast
  from r(3) show "\<exists>ref. entityArchetype w' = (entityArchetype w)(e \<mapsto> ref)" by blast
qed

lemma movers_runs: "\<not> isl movers"
  by code_simp

lemma movers_ok: "\<exists>w. movers = Inr w \<and> world_shape testRuntime w \<and> world_rows w"
proof -
  from returns[OF movers_runs] obtain w3 where r: "movers = Inr w3" by blast
  from r obtain w1 where w1: "addEntityWithComponents testRuntime newWorld 1
                [(Position, position 1 2), (Velocity, velocity 3 4)] = Inr w1"
    by (cases "addEntityWithComponents testRuntime newWorld 1
                [(Position, position 1 2), (Velocity, velocity 3 4)]")
       (auto simp: movers_def andThen_def)
  from r w1 obtain w2 where w2: "addEntityWithComponents testRuntime w1 2
                         [(Velocity, velocity 7 8), (Position, position 5 6)] = Inr w2"
    by (cases "addEntityWithComponents testRuntime w1 2
                         [(Velocity, velocity 7 8), (Position, position 5 6)]")
       (auto simp: movers_def andThen_def)
  from r w1 w2 have w3: "addEntityWithComponents testRuntime w2 3 [(Position, position 9 9)] = Inr w3"
    by (simp add: movers_def andThen_def)
  have 1: "fst ` set [(Position, position 1 2), (Velocity, velocity 3 4)] \<subseteq> {Position, Velocity, Health}"
    "distinct (map (typeId \<circ> fst) [(Position, position 1 2), (Velocity, velocity 3 4)])"
    using example_ids by simp_all
  have 2: "fst ` set [(Velocity, velocity 7 8), (Position, position 5 6)] \<subseteq> {Position, Velocity, Health}"
    "distinct (map (typeId \<circ> fst) [(Velocity, velocity 7 8), (Position, position 5 6)])"
    using example_ids by simp_all
  have 3: "fst ` set [(Position, position 9 9)] \<subseteq> {Position, Velocity, Health}"
    "distinct (map (typeId \<circ> fst) [(Position, position 9 9)])"
    by simp_all
  have f0: "entityArchetype newWorld 1 = None" by (simp add: newWorld_def)
  note a1 = add_example[OF newWorld_ok(1) newWorld_ok(2) newWorld_ok(3) f0 1 w1]
  from a1(4) have f1: "entityArchetype w1 2 = None" by (auto simp: newWorld_def)
  note a2 = add_example[OF a1(1,2,3) f1 2 w2]
  from a1(4) a2(4) have f2: "entityArchetype w2 3 = None" by (auto simp: newWorld_def)
  note a3 = add_example[OF a2(1,2,3) f2 3 w3]
  from r a3(1,3) show ?thesis by blast
qed

lemma movers_query:
  "andThen movers (queryOf []) = Inr [(1, []), (2, []), (3, [])]"
  "andThen movers (queryOf [Velocity, Position]) =
     Inr [(1, [velocity 3 4, position 1 2]), (2, [velocity 7 8, position 5 6])]"
  by code_simp+

theorem query_without_types_witness:
  "\<exists>w. movers = Inr w \<and> world_shape testRuntime w \<and> world_rows w \<and>
     query w [] = Inr [(1, []), (2, []), (3, [])] \<and>
     {e. entityArchetype w e \<noteq> None} = {1, 2, 3}"
proof -
  from movers_ok obtain w where w: "movers = Inr w" "world_shape testRuntime w" "world_rows w"
    by blast
  from movers_query(1)[unfolded w(1)] have q: "query w [] = Inr [(1, []), (2, []), (3, [])]"
    by (simp add: andThen_def queryOf_def)
  from query_without_types[OF w(2) w(3)] obtain out where
    o: "query w [] = Inr out" "set (map fst out) = {e. entityArchetype w e \<noteq> None}" by blast
  from q o(1) have "out = [(1, []), (2, []), (3, [])]" by simp
  with o(2) have s: "{e. entityArchetype w e \<noteq> None} = {1, 2, 3}" by auto
  from w q s show ?thesis by (intro exI[of _ w] conjI)
qed

text \<open>
  The entity 1 given its components twice occupies two rows: the query with no types returns
  two results for it, and still returns it after it was destroyed, when
  \<^verbatim>\<open>getComponent\<close> reports that it has no position.
\<close>

theorem query_without_types_counterexample:
  "andThen addedTwiceWorld (queryOf []) = Inr [(1, []), (1, [])] \<and>
   andThen addedTwiceDestroyed (queryOf []) = Inr [(1, [])] \<and>
   andThen addedTwiceDestroyed (componentOf 1 Position) = Inr None"
  by code_simp

end
